theory Spec2Isabelle
  imports Main
begin

section \<open>URLSearchParams, as \<open>handleFilterChange\<close> uses it\<close>

text \<open>
  A \<open>URLSearchParams\<close> object is an ordered list of name/value pairs in which a name may
  occur several times. Strings are byte strings (the UTF-8 encoding of the script's
  strings), which is what the serialiser works on.
\<close>

type_synonym params = "(string \<times> string) list"

text \<open>\<open>searchParams.get(name)\<close>: the value of the first pair with that name, or \<open>null\<close>.\<close>

fun params_get :: "params \<Rightarrow> string \<Rightarrow> string option" where
  "params_get [] name = None"
| "params_get ((k, v) # ps) name = (if k = name then Some v else params_get ps name)"

text \<open>\<open>searchParams.delete(name)\<close>: removes every pair with that name.\<close>

definition params_delete :: "params \<Rightarrow> string \<Rightarrow> params" where
  "params_delete ps name = filter (\<lambda>(k, v). k \<noteq> name) ps"

text \<open>
  \<open>searchParams.set(name, value)\<close>: if pairs with that name exist, the first one takes the
  value and the others are removed; otherwise a new pair is appended.
\<close>

fun params_set :: "params \<Rightarrow> string \<Rightarrow> string \<Rightarrow> params" where
  "params_set [] name value = [(name, value)]"
| "params_set ((k, v) # ps) name value =
     (if k = name then (name, value) # params_delete ps name
      else (k, v) # params_set ps name value)"

text \<open>
  \<open>searchParams.toString()\<close>: the application/x-www-form-urlencoded serialiser. A space
  becomes \<open>+\<close>; ASCII letters, digits and \<open>* - . _\<close> stay; every other byte becomes
  \<open>%\<close> and two upper-case hexadecimal digits. Pairs are written \<open>name=value\<close> and joined
  with \<open>&\<close>.
\<close>

definition hex_digit :: "nat \<Rightarrow> char" where
  "hex_digit n = (if n < 10 then char_of (48 + n) else char_of (55 + n))"

definition form_unreserved :: "char \<Rightarrow> bool" where
  "form_unreserved c =
     (let n = (of_char c :: nat) in
        (48 \<le> n \<and> n \<le> 57) \<or> (65 \<le> n \<and> n \<le> 90) \<or> (97 \<le> n \<and> n \<le> 122)
        \<or> n = 42 \<or> n = 45 \<or> n = 46 \<or> n = 95)"

definition encode_byte :: "char \<Rightarrow> string" where
  "encode_byte c =
     (if c = CHR '' '' then ''+''
      else if form_unreserved c then [c]
      else [CHR ''%'', hex_digit ((of_char c :: nat) div 16), hex_digit ((of_char c :: nat) mod 16)])"

definition form_encode :: "string \<Rightarrow> string" where
  "form_encode s = concat (map encode_byte s)"

fun join_amp :: "string list \<Rightarrow> string" where
  "join_amp [] = []"
| "join_amp [s] = s"
| "join_amp (s # t # ss) = s @ ''&'' @ join_amp (t # ss)"

definition params_toString :: "params \<Rightarrow> string" where
  "params_toString ps = join_amp (map (\<lambda>(k, v). form_encode k @ ''='' @ form_encode v) ps)"

section \<open>FacetFilters.handleFilterChange\<close>

text \<open>
  The values \<open>currentSortBy\<close> can hold: \<open>null\<close> (from \<open>get\<close> on a missing name),
  \<open>undefined\<close> or a string (from \<open>evt.detail.selectedValue\<close>). \<open>URLSearchParams.set\<close>
  converts its value argument to a string.
\<close>

datatype jsval = JNull | JUndefined | JStr string

fun to_USVString :: "jsval \<Rightarrow> string" where
  "to_USVString JNull = ''null''"
| "to_USVString JUndefined = ''undefined''"
| "to_USVString (JStr s) = s"

text \<open>
  Values that are thrown or that reject a promise. \<open>NetworkError\<close> is the TypeError with
  which \<open>fetch\<close> rejects when the request fails; \<open>StatusError n\<close> is \<open>new Error(n)\<close> for a
  response status; \<open>Reason s\<close> is a string given to \<open>abort\<close> as its reason, with which the
  aborted \<open>fetch\<close> rejects.
\<close>

datatype js_error =
  TypeError | AbortError | NetworkError | SyntaxError | Error string | StatusError nat | Reason string

record sort_option =
  opt_value :: string
  opt_checked :: bool

text \<open>
  The event, as far as the handler reads it: \<open>evt.target.tagName\<close> and
  \<open>evt.detail.selectedValue\<close>. \<open>detail = None\<close> stands for an event whose \<open>detail\<close> is
  \<open>null\<close> or \<open>undefined\<close>, where reading \<open>selectedValue\<close> throws a TypeError.
\<close>

record filter_event =
  tagName :: string
  detail :: "jsval option"

text \<open>
  The \<open>forEach\<close> over \<open>mobileSortByOptions\<close>: each option is checked iff its value is
  strictly equal to the selected value, and \<open>currentSortBy\<close> is overwritten inside the
  loop body, so it keeps its old value when there is no option.
\<close>

fun sync_sort_options ::
  "jsval option \<Rightarrow> sort_option list \<Rightarrow> jsval \<Rightarrow> js_error + (sort_option list \<times> jsval)" where
  "sync_sort_options d [] cur = Inr ([], cur)"
| "sync_sort_options d (opt # opts) cur =
     (case d of
        None \<Rightarrow> Inl TypeError
      | Some sel \<Rightarrow>
          (case sync_sort_options d opts sel of
             Inl e \<Rightarrow> Inl e
           | Inr (opts', cur') \<Rightarrow>
               Inr (opt\<lparr>opt_checked := (JStr (opt_value opt) = sel)\<rparr> # opts', cur')))"

text \<open>The names collected by the first \<open>forEach\<close>: those of the pairs whose value is falsy.\<close>

definition emptyParams :: "params \<Rightarrow> string list" where
  "emptyParams ps = map fst (filter (\<lambda>(k, v). v = []) ps)"

text \<open>The second \<open>forEach\<close>: \<open>delete\<close> for each collected name, in order.\<close>

definition remove_empty :: "params \<Rightarrow> params" where
  "remove_empty ps = foldl params_delete ps (emptyParams ps)"

text \<open>
  The first half of \<open>handleFilterChange(evt)\<close>, given the entries of
  \<open>new FormData(this.form)\<close>: the \<open>URLSearchParams\<close> built from them, with \<open>sort_by\<close>
  merged in when sorting is enabled. The result is the updated mobile options and the
  parameters as they are when the stripping of empty values starts, or the error thrown.
\<close>

definition merge_sort_by ::
  "bool \<Rightarrow> sort_option list \<Rightarrow> params \<Rightarrow> filter_event \<Rightarrow> js_error + (sort_option list \<times> params)" where
  "merge_sort_by sortingEnabled mobileSortByOptions formData evt =
     (if sortingEnabled then
        (let currentSortBy = (case params_get formData ''sort_by'' of None \<Rightarrow> JNull | Some v \<Rightarrow> JStr v)
         in case (if tagName evt = ''CUSTOM-SELECT''
                  then sync_sort_options (detail evt) mobileSortByOptions currentSortBy
                  else Inr (mobileSortByOptions, currentSortBy)) of
              Inl e \<Rightarrow> Inl e
            | Inr (opts', cur') \<Rightarrow>
                Inr (opts', params_set formData ''sort_by'' (to_USVString cur')))
      else Inr (mobileSortByOptions, formData))"

text \<open>
  \<open>handleFilterChange(evt)\<close> up to its last line: the parameters after both \<open>forEach\<close>
  loops, whose \<open>toString()\<close> is passed to \<open>applyFilters\<close>.
\<close>

definition handleFilterChange_params ::
  "bool \<Rightarrow> sort_option list \<Rightarrow> params \<Rightarrow> filter_event \<Rightarrow> js_error + (sort_option list \<times> params)" where
  "handleFilterChange_params sortingEnabled mobileSortByOptions formData evt =
     (case merge_sort_by sortingEnabled mobileSortByOptions formData evt of
        Inl e \<Rightarrow> Inl e
      | Inr (opts', searchParams) \<Rightarrow> Inr (opts', remove_empty searchParams))"

text \<open>The string argument of the \<open>applyFilters\<close> call.\<close>

definition handleFilterChange ::
  "bool \<Rightarrow> sort_option list \<Rightarrow> params \<Rightarrow> filter_event \<Rightarrow> js_error + (sort_option list \<times> string)" where
  "handleFilterChange sortingEnabled mobileSortByOptions formData evt =
     (case handleFilterChange_params sortingEnabled mobileSortByOptions formData evt of
        Inl e \<Rightarrow> Inl e
      | Inr (opts', ps) \<Rightarrow> Inr (opts', params_toString ps))"

subsection \<open>Reading a query string\<close>

text \<open>
  What the parameters of a query string are, for stating properties of the string that
  \<open>applyFilters\<close> receives: the string is cut at every \<open>&\<close>, empty pieces are skipped, and
  each piece is cut at its first \<open>=\<close> into a name and a value (still percent-encoded).
\<close>

fun split_on :: "char \<Rightarrow> string \<Rightarrow> string list" where
  "split_on c [] = [[]]"
| "split_on c (x # xs) =
     (if x = c then [] # split_on c xs
      else (case split_on c xs of [] \<Rightarrow> [[x]] | p # ps \<Rightarrow> (x # p) # ps))"

definition query_pairs :: "string \<Rightarrow> (string \<times> string) list" where
  "query_pairs s =
     map (\<lambda>seg. (takeWhile (\<lambda>c. c \<noteq> CHR ''='') seg, drop 1 (dropWhile (\<lambda>c. c \<noteq> CHR ''='') seg)))
       (filter (\<lambda>seg. seg \<noteq> []) (split_on CHR ''&'' s))"

text \<open>The serialisation of one pair.\<close>

definition pair_string :: "string \<times> string \<Rightarrow> string" where
  "pair_string p = form_encode (fst p) @ ''='' @ form_encode (snd p)"

section \<open>CartDrawer.refresh\<close>

text \<open>
  The cart drawer, as far as \<open>refresh\<close> reads and writes it. \<open>cd_errorMsg\<close> is the
  \<open>textContent\<close> of the element held by \<open>this.errorMsg\<close>, and \<open>None\<close> when that property
  is \<open>undefined\<close>; \<open>cd_section\<close> is the id of the closest \<open>.shopify-section\<close> ancestor with
  its \<open>shopify-section-\<close> prefix removed, and \<open>None\<close> when there is no such ancestor.
\<close>

record custom_event =
  ev_type :: string
  ev_bubbles :: bool
  ev_detail :: string

record cart_drawer =
  cd_has_cartItems :: bool
  cd_section :: "string option"
  cd_errorMsg :: "string option"
  cd_console :: "js_error list"
  cd_dispatched :: "custom_event list"
  cd_cartItems_refreshed :: nat
  cd_fetched :: "string list"
  cd_rendered :: "string list"

text \<open>
  What the environment does during one call: whether \<open>cartItems.refresh()\<close> throws, how
  the \<open>fetch\<close> settles, how \<open>cartResponse.json()\<close> settles (the sections as one opaque
  string), and how the promise of \<open>renderContents\<close> settles.
\<close>

record refresh_env =
  cartItems_refresh :: "js_error option"
  fetch_result :: "js_error option"
  json_result :: "js_error + string"
  renderContents_result :: "js_error option"

text \<open>
  The instance as construction leaves it: the constructors of \<open>CartDrawer\<close> and
  \<open>SideDrawer\<close>, \<open>init\<close> and \<open>bindEvents\<close> assign \<open>cartSummary\<close>, \<open>overlay\<close> and the handler
  properties; no line assigns \<open>errorMsg\<close>.
\<close>

definition CartDrawer_constructor :: "bool \<Rightarrow> string option \<Rightarrow> cart_drawer" where
  "CartDrawer_constructor has_items sec =
     \<lparr>cd_has_cartItems = has_items, cd_section = sec, cd_errorMsg = None, cd_console = [],
      cd_dispatched = [], cd_cartItems_refreshed = 0, cd_fetched = [], cd_rendered = []\<rparr>"

text \<open>
  The \<open>catch\<close> block of \<open>refresh\<close>: the error is logged, then the event is built, which
  reads \<open>this.errorMsg.textContent\<close>. The first component is the error with which the
  promise of \<open>refresh\<close> rejects, \<open>None\<close> when it is fulfilled.
\<close>

definition refresh_catch :: "js_error \<Rightarrow> cart_drawer \<Rightarrow> js_error option \<times> cart_drawer" where
  "refresh_catch e s =
     (let s1 = s\<lparr>cd_console := cd_console s @ [e]\<rparr> in
      case cd_errorMsg s1 of
        None \<Rightarrow> (Some TypeError, s1)
      | Some msg \<Rightarrow>
          (None, s1\<lparr>cd_dispatched := cd_dispatched s1 @
             [\<lparr>ev_type = ''on:cart:error'', ev_bubbles = True, ev_detail = msg\<rparr>]\<rparr>))"

text \<open>
  \<open>refresh(dontRefreshCartItems)\<close>. \<open>renderContents\<close> is an async function called without
  \<open>await\<close>: the call is recorded, and however its promise settles, \<open>refresh\<close> is fulfilled.
\<close>

definition refresh :: "bool \<Rightarrow> refresh_env \<Rightarrow> cart_drawer \<Rightarrow> js_error option \<times> cart_drawer" where
  "refresh dontRefreshCartItems env s =
     (if cd_has_cartItems s \<and> \<not> dontRefreshCartItems then
        (case cartItems_refresh env of
           Some e \<Rightarrow> refresh_catch e s
         | None \<Rightarrow> (None, s\<lparr>cd_cartItems_refreshed := Suc (cd_cartItems_refreshed s)\<rparr>))
      else
        (case cd_section s of
           None \<Rightarrow> refresh_catch TypeError s
         | Some sec \<Rightarrow>
             (let s1 = s\<lparr>cd_fetched := cd_fetched s @ [''?sections='' @ sec @ '',cart-icon-bubble'']\<rparr> in
              case fetch_result env of
                Some e \<Rightarrow> refresh_catch e s1
              | None \<Rightarrow>
                  (case json_result env of
                     Inl e \<Rightarrow> refresh_catch e s1
                   | Inr sections \<Rightarrow> (None, s1\<lparr>cd_rendered := cd_rendered s1 @ [sections]\<rparr>)))))"

section \<open>CustomPagination\<close>

text \<open>
  The elements the component holds references to. A \<open>button\<close> is the
  \<open>.js-pagination-load-more\<close> link; a \<open>pagination_el\<close> is the \<open>.js-pagination\<close> element, with the
  two dataset entries the code reads, its \<open>is-loading\<close> class, its inner HTML and whether it is
  still in the document. The load-more link is taken to lie inside the pagination element,
  so that after the inner HTML is replaced, \<open>querySelector('.js-pagination-load-more')\<close>
  finds the link of the new markup.
\<close>

record button =
  href :: string
  btn_is_loading :: bool
  btn_aria_disabled :: bool

record pagination_el =
  paginationStyle :: "string option"
  isMoreResults :: "string option"
  pag_is_loading :: bool
  pag_innerHTML :: string
  pag_attached :: bool

text \<open>A dataset entry is truthy when the attribute is present and not empty.\<close>

fun truthy :: "string option \<Rightarrow> bool" where
  "truthy None = False"
| "truthy (Some s) = (s \<noteq> [])"

datatype phase = AwaitFetch | AwaitText

record cp_request =
  rq_id :: nat
  rq_url :: string
  rq_phase :: phase

text \<open>
  The component with the part of the page and of the browser it acts on: its own
  properties (\<open>isFetching\<close> is \<open>undefined\<close> at first, which is falsy; \<open>results\<close> lists the
  elements of \<open>this.results\<close> by name, in document order), the
  \<open>data-pause-infinite-scroll\<close> attribute, the \<open>.js-when-paginated-only\<close> elements of the
  document, the running interval timers, the console, the requests of \<open>loadMore\<close> that
  have not settled, and the errors with which promises of \<open>loadMore\<close> were rejected.
  \<open>paginationObserver\<close> is \<open>Some True\<close> while the observer observes, \<open>Some False\<close> once
  disconnected.
\<close>

record custom_pagination =
  infiniteScroll :: bool
  pagination :: "pagination_el option"
  loadMoreButton :: "button option"
  results :: "string list"
  controller :: "nat option"
  isFetching :: bool
  pauseInfiniteScroll :: "string option"
  intersectingTimer :: "nat option"
  paginationObserver :: "bool option"
  when_paginated_only :: "string list"
  active_timers :: "nat list"
  next_timer :: nat
  cp_console :: "js_error list"
  in_flight :: "cp_request list"
  next_signal :: nat
  cp_rejected :: "js_error list"

record response =
  ok :: bool
  status :: nat

text \<open>
  A \<open>.js-pagination-result\<close> element of a parsed response body: its name and the
  \<open>.js-pagination-result\<close> elements inside it, those that are not nested in a further one,
  in document order. \<open>matches\<close> is \<open>querySelectorAll('.js-pagination-result')\<close> on such an
  element, the element itself included.
\<close>

datatype result = Result (res_name: string) (res_inner: "result list")

fun matches :: "result \<Rightarrow> result list" where
  "matches (Result n rs) = Result n rs # concat (map matches rs)"

text \<open>
  A response body parsed by the \<open>template\<close> element: its \<open>.js-pagination-result\<close>
  elements that are not nested in another one, and its first \<open>.js-pagination\<close> element if
  any, with its \<open>data-is-more-results\<close> entry, its inner HTML and the load-more link inside
  it.
\<close>

record new_pagination =
  np_isMoreResults :: "string option"
  np_innerHTML :: string
  np_button :: "button option"

record page =
  pg_results :: "result list"
  pg_pagination :: "new_pagination option"

text \<open>
  The markup that \<open>loadMore\<close> inserts is the outer HTML of every match of
  \<open>querySelectorAll('.js-pagination-result')\<close> on the body, one after the other, so a result
  nested in another one is inserted inside it and once more by itself.
  \<open>appended_results\<close> are the \<open>.js-pagination-result\<close> elements of the inserted markup, in
  document order.
\<close>

definition inserted_results :: "page \<Rightarrow> result list" where
  "inserted_results pg = concat (map matches (pg_results pg))"

definition appended_results :: "page \<Rightarrow> string list" where
  "appended_results pg = map res_name (concat (map matches (inserted_results pg)))"

definition no_button_message :: string where
  "no_button_message = ''No '' @ [char_of (39::nat)] @ ''Load more'' @ [char_of (39::nat)] @ '' button found.''"

definition clearInterval :: "nat \<Rightarrow> custom_pagination \<Rightarrow> custom_pagination" where
  "clearInterval t s = s\<lparr>active_timers := removeAll t (active_timers s)\<rparr>"

definition clear_intersectingTimer :: "custom_pagination \<Rightarrow> custom_pagination" where
  "clear_intersectingTimer s = (case intersectingTimer s of None \<Rightarrow> s | Some t \<Rightarrow> clearInterval t s)"

definition disconnect_observer :: "custom_pagination \<Rightarrow> custom_pagination" where
  "disconnect_observer s =
     (case paginationObserver s of None \<Rightarrow> s | Some c \<Rightarrow> s\<lparr>paginationObserver := Some False\<rparr>)"

text \<open>
  The \<open>finally\<close> block of \<open>loadMore\<close>. Its last statement reads
  \<open>this.pagination.dataset\<close>: when \<open>this.pagination\<close> is \<open>null\<close> it throws, and the promise of
  \<open>loadMore\<close> is rejected.
\<close>

definition loadMore_finally :: "custom_pagination \<Rightarrow> custom_pagination" where
  "loadMore_finally s =
     (let s1 = s\<lparr>controller := None\<rparr>;
          s2 = (case loadMoreButton s1 of
                  None \<Rightarrow> s1
                | Some b \<Rightarrow> s1\<lparr>loadMoreButton := Some (b\<lparr>btn_is_loading := False, btn_aria_disabled := False\<rparr>)\<rparr>);
          s3 = s2\<lparr>isFetching := False\<rparr>
      in case pagination s3 of
           None \<Rightarrow> s3\<lparr>cp_rejected := cp_rejected s3 @ [TypeError]\<rparr>
         | Some p \<Rightarrow>
             (if paginationStyle p = Some ''traditional''
              then s3\<lparr>pagination := Some (p\<lparr>pag_is_loading := False\<rparr>)\<rparr>
              else s3))"

text \<open>The \<open>catch\<close> block, followed by the \<open>finally\<close> block.\<close>

definition loadMore_catch :: "js_error \<Rightarrow> custom_pagination \<Rightarrow> custom_pagination" where
  "loadMore_catch e s =
     loadMore_finally (clear_intersectingTimer (s\<lparr>cp_console := cp_console s @ [e]\<rparr>))"

text \<open>\<open>loadMore()\<close> from its first line to the \<open>await\<close> of \<open>fetch\<close>.\<close>

definition loadMore :: "custom_pagination \<Rightarrow> custom_pagination" where
  "loadMore s =
     (if \<not> isFetching s \<and> pauseInfiniteScroll s = Some ''false'' then
        (let s1 = s\<lparr>isFetching := True, controller := Some (next_signal s),
                     next_signal := Suc (next_signal s)\<rparr>
         in case loadMoreButton s1 of
              None \<Rightarrow> loadMore_catch (Error no_button_message) s1
            | Some b \<Rightarrow>
                (let s2 = s1\<lparr>loadMoreButton := Some (b\<lparr>btn_is_loading := True, btn_aria_disabled := True\<rparr>)\<rparr>
                 in case pagination s2 of
                      None \<Rightarrow> loadMore_catch TypeError s2
                    | Some p \<Rightarrow>
                        (let s3 = (if paginationStyle p = Some ''traditional''
                                   then s2\<lparr>pagination := Some (p\<lparr>pag_is_loading := True\<rparr>)\<rparr>
                                   else s2)
                         in s3\<lparr>in_flight := in_flight s3 @
                               [\<lparr>rq_id = next_signal s, rq_url = href b, rq_phase = AwaitFetch\<rparr>]\<rparr>)))
      else s)"

definition find_request :: "nat \<Rightarrow> phase \<Rightarrow> cp_request list \<Rightarrow> cp_request option" where
  "find_request n ph rs = List.find (\<lambda>r. rq_id r = n \<and> rq_phase r = ph) rs"

definition drop_request :: "nat \<Rightarrow> custom_pagination \<Rightarrow> custom_pagination" where
  "drop_request n s = s\<lparr>in_flight := filter (\<lambda>r. rq_id r \<noteq> n) (in_flight s)\<rparr>"

text \<open>
  \<open>loadMore()\<close> from the moment the promise of \<open>fetch\<close> settles to the \<open>await\<close> of
  \<open>response.text()\<close>.
\<close>

definition loadMore_fetched :: "nat \<Rightarrow> js_error + response \<Rightarrow> custom_pagination \<Rightarrow> custom_pagination" where
  "loadMore_fetched n outcome s =
     (case find_request n AwaitFetch (in_flight s) of
        None \<Rightarrow> s
      | Some r \<Rightarrow>
          (case outcome of
             Inl e \<Rightarrow> loadMore_catch e (drop_request n s)
           | Inr resp \<Rightarrow>
               if \<not> ok resp then loadMore_catch (StatusError (status resp)) (drop_request n s)
               else if pauseInfiniteScroll s = Some ''true''
               then loadMore_catch (Error ''Infinite scroll was interrupted.'') (drop_request n s)
               else s\<lparr>in_flight := map (\<lambda>r. if rq_id r = n then r\<lparr>rq_phase := AwaitText\<rparr> else r) (in_flight s)\<rparr>))"

text \<open>
  The rest of the \<open>try\<close> block, once the body is read and parsed: the new results are
  inserted after the last result and \<open>this.results\<close> is queried anew, then the pagination
  content is replaced and the load-more link rebound, or, when the new pagination element
  has no truthy \<open>data-is-more-results\<close>, the pagination is removed. The results of the
  component are changed by \<open>loadMore\<close> only, so the new query finds the former results
  followed by the inserted ones.
\<close>

definition loadMore_append :: "page \<Rightarrow> custom_pagination \<Rightarrow> custom_pagination" where
  "loadMore_append pg s =
     (if results s = [] then loadMore_catch TypeError s
      else
        (let s1 = s\<lparr>results := results s @ appended_results pg\<rparr> in
         case pg_pagination pg of
           None \<Rightarrow> loadMore_catch TypeError s1
         | Some np \<Rightarrow>
             (case pagination s1 of
                None \<Rightarrow> loadMore_catch TypeError s1
              | Some p \<Rightarrow>
                  if truthy (np_isMoreResults np) then
                    (let s2 = s1\<lparr>pagination := Some (p\<lparr>pag_innerHTML := np_innerHTML np\<rparr>)\<rparr> in
                     case loadMoreButton s2 of
                       None \<Rightarrow> loadMore_finally s2
                     | Some b \<Rightarrow>
                         (case np_button np of
                            None \<Rightarrow> loadMore_catch TypeError (s2\<lparr>loadMoreButton := None\<rparr>)
                          | Some nb \<Rightarrow> loadMore_finally (s2\<lparr>loadMoreButton := Some nb\<rparr>)))
                  else
                    loadMore_finally
                      ((disconnect_observer
                          (clear_intersectingTimer (s1\<lparr>pagination := Some (p\<lparr>pag_attached := False\<rparr>)\<rparr>)))
                        \<lparr>when_paginated_only := []\<rparr>))))"

definition loadMore_text :: "nat \<Rightarrow> js_error + page \<Rightarrow> custom_pagination \<Rightarrow> custom_pagination" where
  "loadMore_text n outcome s =
     (case find_request n AwaitText (in_flight s) of
        None \<Rightarrow> s
      | Some r \<Rightarrow>
          (case outcome of
             Inl e \<Rightarrow> loadMore_catch e (drop_request n s)
           | Inr pg \<Rightarrow> loadMore_append pg (drop_request n s)))"

text \<open>
  \<open>handleResultClick\<close> for a click on a link inside a result: the controller, if any, is
  aborted. Aborting rejects the pending promise of the request made with its signal, and
  \<open>loadMore\<close> resumes in its \<open>catch\<close> block before any other event is handled.
\<close>

definition handleResultClick :: "custom_pagination \<Rightarrow> custom_pagination" where
  "handleResultClick s =
     (case controller s of
        None \<Rightarrow> s
      | Some c \<Rightarrow>
          (if \<exists>r \<in> set (in_flight s). rq_id r = c
           then loadMore_catch AbortError (drop_request c s)
           else s))"

text \<open>
  The callback of the IntersectionObserver, for one entry: an intersecting entry calls
  \<open>loadMore\<close> and starts an interval timer, whose identifier overwrites
  \<open>intersectingTimer\<close>; another entry clears the timer held there.
\<close>

definition observe_entry :: "custom_pagination \<Rightarrow> bool \<Rightarrow> custom_pagination" where
  "observe_entry s isIntersecting =
     (if isIntersecting then
        (let s1 = loadMore s in
         s1\<lparr>intersectingTimer := Some (next_timer s1),
            active_timers := active_timers s1 @ [next_timer s1],
            next_timer := Suc (next_timer s1)\<rparr>)
      else clear_intersectingTimer s)"

text \<open>\<open>destroy()\<close> and \<open>init()\<close>; \<open>init\<close> is given what its queries of the document find.\<close>

definition destroy :: "custom_pagination \<Rightarrow> custom_pagination" where
  "destroy s = disconnect_observer (clear_intersectingTimer s)"

record init_queries =
  q_infiniteScroll :: bool
  q_pagination :: "pagination_el option"
  q_loadMoreButton :: "button option"
  q_results :: "string list"

definition init :: "init_queries \<Rightarrow> custom_pagination \<Rightarrow> custom_pagination" where
  "init q s =
     (let s1 = s\<lparr>infiniteScroll := q_infiniteScroll q, pagination := q_pagination q,
                  loadMoreButton := q_loadMoreButton q, results := q_results q, controller := None\<rparr>
      in case pagination s1 of
           None \<Rightarrow> s1
         | Some p \<Rightarrow>
             (if truthy (isMoreResults p) \<and> infiniteScroll s1
              then s1\<lparr>paginationObserver := Some True\<rparr>
              else s1))"

definition reload :: "init_queries \<Rightarrow> custom_pagination \<Rightarrow> custom_pagination" where
  "reload q s = init q (destroy s)"

text \<open>
  What can happen to the component, one event at a time: a call of \<open>loadMore\<close> (from the
  click handler or from other code), the settling of a \<open>fetch\<close> or of a body read, an
  assignment to the pause attribute by other code, a click on a result link, a callback
  of the observer, a tick of an interval timer, and \<open>reload\<close>.
\<close>

datatype cp_event =
  LoadMore
  | FetchSettles nat "js_error + response"
  | TextSettles nat "js_error + page"
  | SetPause string
  | ResultClick
  | Intersect "bool list"
  | TimerTick nat
  | Reload init_queries

fun cp_step :: "custom_pagination \<Rightarrow> cp_event \<Rightarrow> custom_pagination" where
  "cp_step s LoadMore = loadMore s"
| "cp_step s (FetchSettles n outcome) = loadMore_fetched n outcome s"
| "cp_step s (TextSettles n outcome) = loadMore_text n outcome s"
| "cp_step s (SetPause v) = s\<lparr>pauseInfiniteScroll := Some v\<rparr>"
| "cp_step s ResultClick = handleResultClick s"
| "cp_step s (Intersect entries) =
     (if paginationObserver s = Some True then foldl observe_entry s entries else s)"
| "cp_step s (TimerTick t) = (if t \<in> set (active_timers s) then loadMore s else s)"
| "cp_step s (Reload q) = reload q s"

definition cp_run :: "custom_pagination \<Rightarrow> cp_event list \<Rightarrow> custom_pagination" where
  "cp_run s evs = foldl cp_step s evs"

text \<open>
  The component as its constructor leaves it: no property but those that \<open>init\<close> assigns
  is set, so \<open>isFetching\<close>, \<open>intersectingTimer\<close> and \<open>paginationObserver\<close> are \<open>undefined\<close>.
  The arguments are what \<open>init\<close> finds, the \<open>data-pause-infinite-scroll\<close> attribute and the
  \<open>.js-when-paginated-only\<close> elements of the document.
\<close>

definition CustomPagination_constructor :: "init_queries \<Rightarrow> string option \<Rightarrow> string list \<Rightarrow> custom_pagination" where
  "CustomPagination_constructor q pause paginated_only =
     init q \<lparr>infiniteScroll = False, pagination = None, loadMoreButton = None, results = [],
             controller = None, isFetching = False, pauseInfiniteScroll = pause,
             intersectingTimer = None, paginationObserver = None,
             when_paginated_only = paginated_only, active_timers = [], next_timer = 1,
             cp_console = [], in_flight = [], next_signal = 0, cp_rejected = []\<rparr>"

text \<open>
  At most one request of \<open>loadMore\<close> has not settled, and while there is one,
  \<open>isFetching\<close> is set.
\<close>

definition single_flight :: "custom_pagination \<Rightarrow> bool" where
  "single_flight s \<longleftrightarrow> length (in_flight s) \<le> 1 \<and> (in_flight s \<noteq> [] \<longrightarrow> isFetching s)"

text \<open>
  A page of two results with a load-more link to the second page, infinite scroll
  enabled; a second page that is the last one; a response with status 200.
\<close>

definition example_pagination :: custom_pagination where
  "example_pagination =
     CustomPagination_constructor
       \<lparr>q_infiniteScroll = True,
        q_pagination = Some \<lparr>paginationStyle = Some ''modern'', isMoreResults = Some ''true'',
                             pag_is_loading = False, pag_innerHTML = ''<a href=/c?page=2>'', pag_attached = True\<rparr>,
        q_loadMoreButton = Some \<lparr>href = ''/c?page=2'', btn_is_loading = False, btn_aria_disabled = False\<rparr>,
        q_results = [''One'', ''Two'']\<rparr>
       (Some ''false'') [''Showing some of the results'']"

definition last_page :: page where
  "last_page = \<lparr>pg_results = [Result ''Three'' []],
                pg_pagination = Some \<lparr>np_isMoreResults = None, np_innerHTML = [], np_button = None\<rparr>\<rparr>"

definition ok_response :: response where
  "ok_response = \<lparr>ok = True, status = 200\<rparr>"

text \<open>The example after \<open>loadMore\<close> was called and other code then set the pause flag.\<close>

definition paused_in_flight :: custom_pagination where
  "paused_in_flight = cp_run example_pagination [LoadMore, SetPause ''true'']"

text \<open>
  The example after the observer reported an intersection, which called \<open>loadMore\<close> and
  started the interval timer, and the response to the request arrived.
\<close>

definition last_page_pending :: custom_pagination where
  "last_page_pending = cp_run example_pagination [Intersect [True], FetchSettles 0 (Inr ok_response)]"

section \<open>The document tree\<close>

text \<open>
  An element has a tag name (lower case), an \<open>id\<close> (empty when it has none), its class
  list, its \<open>open\<close> attribute and its children; the other node kind is text. The content
  of an element, its inner HTML, is the list of its children, and a parsed response body is
  the list of the children of the \<open>template\<close> content.
\<close>

datatype node =
  Text string
  | Elem (tag: string) (nid: string) (cls: "string list") (nopen: bool) (kids: "node list")

text \<open>
  The elements of a subtree in document order, the subtree's root first.
\<close>

fun elements :: "node \<Rightarrow> node list" where
  "elements (Text s) = []"
| "elements (Elem t i c b ks) = Elem t i c b ks # concat (map elements ks)"

definition elements_of :: "node list \<Rightarrow> node list" where
  "elements_of ks = concat (map elements ks)"

text \<open>
  \<open>getElementById\<close> (the empty string matches nothing), \<open>querySelector\<close> for a class and
  for a tag name: the first match in document order. \<open>textContent\<close> is what \<open>innerText\<close>
  returns for an element of a template.
\<close>

definition getElementById :: "string \<Rightarrow> node list \<Rightarrow> node option" where
  "getElementById i ks = (if i = [] then None else List.find (\<lambda>e. nid e = i) (elements_of ks))"

definition querySelector_class :: "string \<Rightarrow> node list \<Rightarrow> node option" where
  "querySelector_class c ks = List.find (\<lambda>e. c \<in> set (cls e)) (elements_of ks)"

definition querySelector_tag :: "string \<Rightarrow> node list \<Rightarrow> node option" where
  "querySelector_tag t ks = List.find (\<lambda>e. tag e = t) (elements_of ks)"

fun textContent :: "node \<Rightarrow> string" where
  "textContent (Text s) = s"
| "textContent (Elem t i c b ks) = concat (map textContent ks)"

text \<open>
  \<open>querySelectorAll('details-disclosure > details')\<close> on the live form: the \<open>details\<close>
  elements whose parent is a \<open>details-disclosure\<close> element. The flag tells whether the parent
  is one; the form itself is a \<open>form\<close> element (\<open>new FormData(this.form)\<close> requires it), so
  for its children the flag is false.
\<close>

fun groups_in :: "bool \<Rightarrow> node \<Rightarrow> node list" where
  "groups_in pd (Text s) = []"
| "groups_in pd (Elem t i c b ks) =
     (if t = ''details'' \<and> pd then [Elem t i c b ks] else [])
     @ concat (map (groups_in (t = ''details-disclosure'')) ks)"

definition form_groups :: "node list \<Rightarrow> node list" where
  "form_groups ks = concat (map (groups_in False) ks)"

text \<open>
  \<open>querySelectorAll('#facets details-disclosure > details')\<close> on the template content: the
  \<open>details\<close> elements whose parent is a \<open>details-disclosure\<close> element that has itself an
  ancestor with id \<open>facets\<close>. The first flag tells whether the element has an ancestor with
  that id, the second whether its parent is such a \<open>details-disclosure\<close> element; a
  \<open>details-disclosure\<close> element that carries the id itself does not count as one.
\<close>

fun facets_groups_in :: "bool \<Rightarrow> bool \<Rightarrow> node \<Rightarrow> node list" where
  "facets_groups_in uf pd (Text s) = []"
| "facets_groups_in uf pd (Elem t i c b ks) =
     (if t = ''details'' \<and> pd then [Elem t i c b ks] else [])
     @ concat (map (facets_groups_in (uf \<or> i = ''facets'') (t = ''details-disclosure'' \<and> uf)) ks)"

text \<open>
  \<open>target.open = v\<close> for \<open>target = getElementById(i)\<close>: the first element with that id
  in document order is updated, nothing when there is none. The property is reflected
  in the attribute, and so in the inner HTML, for \<open>details\<close> and \<open>dialog\<close> elements only.
\<close>

fun set_open_node :: "string \<Rightarrow> bool \<Rightarrow> node \<Rightarrow> node option"
  and set_open_list :: "string \<Rightarrow> bool \<Rightarrow> node list \<Rightarrow> node list option" where
  "set_open_node i v (Text s) = None"
| "set_open_node i v (Elem t j c b ks) =
     (if j = i then Some (Elem t j c (if t = ''details'' \<or> t = ''dialog'' then v else b) ks)
      else map_option (Elem t j c b) (set_open_list i v ks))"
| "set_open_list i v [] = None"
| "set_open_list i v (k # ks) =
     (case set_open_node i v k of
        Some k' \<Rightarrow> Some (k' # ks)
      | None \<Rightarrow> map_option ((#) k) (set_open_list i v ks))"

definition set_open :: "string \<Rightarrow> bool \<Rightarrow> node list \<Rightarrow> node list" where
  "set_open i v ks = (if i = [] then ks else case set_open_list i v ks of None \<Rightarrow> ks | Some ks' \<Rightarrow> ks')"

text \<open>
  The body of the second loop for one filter group, on the children of the group: the
  class \<open>js-hidden\<close> is removed from every descendant, then the first descendant with
  class \<open>filter__more\<close> is removed from the tree, if there is one.
\<close>

fun unhide_all :: "node \<Rightarrow> node" where
  "unhide_all (Text s) = Text s"
| "unhide_all (Elem t i c b ks) = Elem t i (removeAll ''js-hidden'' c) b (map unhide_all ks)"

fun remove_more :: "node list \<Rightarrow> node list option" where
  "remove_more [] = None"
| "remove_more (Text s # ks) = map_option ((#) (Text s)) (remove_more ks)"
| "remove_more (Elem t i c b sub # ks) =
     (if ''filter__more'' \<in> set c then Some ks
      else (case remove_more sub of
              Some sub' \<Rightarrow> Some (Elem t i c b sub' # ks)
            | None \<Rightarrow> map_option ((#) (Elem t i c b sub)) (remove_more ks)))"

definition show_all :: "node list \<Rightarrow> node list" where
  "show_all ks = (let u = map unhide_all ks in case remove_more u of None \<Rightarrow> u | Some u' \<Rightarrow> u')"

text \<open>
  Neither step makes a content larger; the next definition terminates by this.
\<close>

lemma size_unhide_all [simp]: "size (unhide_all n) = size n"
  by (induction n) (simp_all add: size_list_conv_sum_list comp_def cong: map_cong)

lemma size_remove_more: "remove_more ks = Some ks' \<Longrightarrow> size_list size ks' \<le> size_list size ks"
  by (induction ks arbitrary: ks' rule: remove_more.induct) (auto split: if_splits option.splits)

lemma size_map_unhide_all: "size_list (size \<circ> unhide_all) ks = size_list size ks"
  by (induction ks) simp_all

lemma size_show_all: "size_list size (show_all ks) \<le> size_list size ks"
  using size_remove_more[of "map unhide_all ks"]
  by (auto simp: show_all_def Let_def size_map_unhide_all split: option.splits)

text \<open>
  The second loop over the static list of matches, in document order: a group is
  treated before the groups nested in it, and a nested group that was removed with a
  \<open>filter__more\<close> element is treated outside the tree, which leaves no trace. So the tree
  is rewritten from the root down: a matching element whose id is in \<open>expanded\<close> has its
  children treated first, then the loop goes on in the children that are left. The flags
  are those of \<open>facets_groups_in\<close>.
\<close>

function expand_node :: "string list \<Rightarrow> bool \<Rightarrow> bool \<Rightarrow> node \<Rightarrow> node" where
  "expand_node X uf pd (Text s) = Text s"
| "expand_node X uf pd (Elem t i c b ks) =
     Elem t i c b
       (map (expand_node X (uf \<or> i = ''facets'') (t = ''details-disclosure'' \<and> uf))
          (if t = ''details'' \<and> pd \<and> i \<in> set X then show_all ks else ks))"
  by pat_completeness auto
termination
proof (relation "measure (\<lambda>(X, uf, pd, n). size n)", goal_cases)
  case 1
  show ?case by simp
next
  case (2 X uf pd t i c b ks x)
  have "size x \<le> size_list size ks"
  proof (cases "t = ''details'' \<and> pd \<and> i \<in> set X")
    case True
    with 2 have "x \<in> set (show_all ks)" by simp
    then have "size x \<le> size_list size (show_all ks)" by (simp add: size_list_estimation')
    with size_show_all[of ks] show ?thesis by simp
  next
    case False
    with 2 have "x \<in> set ks" by auto
    then show ?thesis by (simp add: size_list_estimation')
  qed
  then show ?case by simp
qed

text \<open>
  An element of a content is addressed by the positions of its ancestors and of itself
  among their siblings. \<open>node_at\<close> reads the node at an address, \<open>remove_at\<close> removes it,
  \<open>update_at\<close> rewrites it; an address that leads nowhere changes nothing.
\<close>

fun node_at :: "nat list \<Rightarrow> node list \<Rightarrow> node option" where
  "node_at [] ks = None"
| "node_at [n] ks = (if n < length ks then Some (ks ! n) else None)"
| "node_at (n # m # p) ks =
     (if n < length ks
      then (case ks ! n of Text s \<Rightarrow> None | Elem t i c b sub \<Rightarrow> node_at (m # p) sub)
      else None)"

fun remove_at :: "nat list \<Rightarrow> node list \<Rightarrow> node list" where
  "remove_at [] ks = ks"
| "remove_at [n] ks = take n ks @ drop (Suc n) ks"
| "remove_at (n # m # p) ks =
     (if n < length ks
      then (case ks ! n of
              Text s \<Rightarrow> ks
            | Elem t i c b sub \<Rightarrow> ks[n := Elem t i c b (remove_at (m # p) sub)])
      else ks)"

fun update_at :: "nat list \<Rightarrow> (node \<Rightarrow> node) \<Rightarrow> node list \<Rightarrow> node list" where
  "update_at [] f ks = ks"
| "update_at [n] f ks = (if n < length ks then ks[n := f (ks ! n)] else ks)"
| "update_at (n # m # p) f ks =
     (if n < length ks
      then (case ks ! n of
              Text s \<Rightarrow> ks
            | Elem t i c b sub \<Rightarrow> ks[n := Elem t i c b (update_at (m # p) f sub)])
      else ks)"

text \<open>
  \<open>filter.querySelectorAll('li')\<close> with \<open>classList.remove('js-hidden')\<close>: on every \<open>li\<close>
  element below the given one.
\<close>

fun unhide_items :: "node \<Rightarrow> node" where
  "unhide_items (Text s) = Text s"
| "unhide_items (Elem t i c b ks) =
     Elem t i (if t = ''li'' then removeAll ''js-hidden'' c else c) b (map unhide_items ks)"

fun show_items :: "node \<Rightarrow> node" where
  "show_items (Text s) = Text s"
| "show_items (Elem t i c b ks) = Elem t i c b (map unhide_items ks)"

definition has_class :: "string \<Rightarrow> node option \<Rightarrow> bool" where
  "has_class c n = (case n of Some (Elem t i cs b ks) \<Rightarrow> c \<in> set cs | _ \<Rightarrow> False)"

section \<open>FacetFilters\<close>

text \<open>
  Restoring the state of the user interface on the parsed response: the \<open>open\<close> state
  of each filter group of the live form is copied to the element of the same id, then
  the groups recorded in \<open>expanded\<close> are shown in full.
\<close>

definition restore_open :: "node list \<Rightarrow> node list \<Rightarrow> node list" where
  "restore_open existing tmpl = foldl (\<lambda>T g. set_open (nid g) (nopen g) T) tmpl existing"

definition restore_expanded :: "string list \<Rightarrow> node list \<Rightarrow> node list" where
  "restore_expanded X tmpl = map (expand_node X False False) tmpl"

text \<open>
  \<open>setAttribute('class', c)\<close> on the first \<open>ul\<close> element of the results.
\<close>

fun set_first_ul_class :: "string list \<Rightarrow> node list \<Rightarrow> node list option" where
  "set_first_ul_class c [] = None"
| "set_first_ul_class c (Text s # ks) = map_option ((#) (Text s)) (set_first_ul_class c ks)"
| "set_first_ul_class c (Elem t i c' b sub # ks) =
     (if t = ''ul'' then Some (Elem t i c b sub # ks)
      else (case set_first_ul_class c sub of
              Some sub' \<Rightarrow> Some (Elem t i c' b sub' # ks)
            | None \<Rightarrow> map_option ((#) (Elem t i c' b sub)) (set_first_ul_class c ks)))"

text \<open>
  The component with what it acts on. The form and the results are the contents of the
  elements \<open>#facets\<close> and \<open>#filter-results\<close>, two elements of which neither contains the
  other; \<open>ff_results_loading\<close> is the class \<open>is-loading\<close> of the results element.
  \<open>ff_form_cls\<close> is the class list of the form element, and \<open>ff_form_outer\<close> lists the
  ancestors of the form element, the nearest first, each with its tag name, id and class
  list and with whether the results element lies below it.
  The \<open>.js-close-drawer-mob\<close> button lies outside both, and \<open>None\<close> stands for a component
  without one. \<open>ff_customPagination\<close> is the \<open>custom-pagination\<close> element of the document, if
  any: its pause attribute, whether it has a \<open>reload\<close> method, and how often that was
  called. \<open>ff_currentResultsClass\<close> is empty when the property is \<open>undefined\<close>, \<open>null\<close> or
  the empty string. \<open>ff_history\<close> lists the calls of \<open>pushState\<close>, each with its state and
  its address; a state is \<open>null\<close> or an object, with its \<open>searchParams\<close> if it has one.
  \<open>ff_in_flight\<close> are the calls of \<open>applyFilters\<close> that wait for their \<open>fetch\<close> or for the
  body, each with its arguments and the identifier of its abort signal.
\<close>

record outer_el =
  oe_tag :: string
  oe_id :: string
  oe_cls :: "string list"
  oe_results :: bool

record close_button =
  cb_ariaDisabled :: bool
  cb_is_loading :: bool
  cb_innerText :: string

record pagination_handle =
  ph_pauseInfiniteScroll :: "string option"
  ph_has_reload :: bool
  ph_reloads :: nat

datatype hstate = HNull | HObj "string option"

record ff_request =
  fr_id :: nat
  fr_searchParams :: string
  fr_updateUrl :: bool
  fr_url :: string
  fr_phase :: phase

record facet_filters =
  ff_sortingEnabled :: bool
  ff_mobileSortByOptions :: "sort_option list"
  ff_form :: "node list"
  ff_form_cls :: "string list"
  ff_form_outer :: "outer_el list"
  ff_filterSectionId :: "string option"
  ff_results :: "node list"
  ff_results_loading :: bool
  ff_closeBtn :: "close_button option"
  ff_expanded :: "string list"
  ff_currentResultsClass :: "string list"
  ff_controller :: "nat option"
  ff_customPagination :: "pagination_handle option"
  ff_pathname :: string
  ff_history :: "(hstate \<times> string) list"
  ff_console :: "js_error list"
  ff_dispatched :: "string list"
  ff_in_flight :: "ff_request list"
  ff_next_signal :: nat

text \<open>
  A response body as the \<open>template\<close> element parses it, and whether \<open>addElements()\<close> and
  \<open>addListeners()\<close>, which look elements up in parts of the page that are not modelled,
  throw on the new content.
\<close>

record ff_body =
  fragment :: "node list"
  addListeners_result :: "js_error option"

text \<open>
  \<open>FacetFilters.updateURL(searchParams)\<close>: one \<open>pushState\<close>.
\<close>

definition updateURL :: "string \<Rightarrow> facet_filters \<Rightarrow> facet_filters" where
  "updateURL searchParams s =
     s\<lparr>ff_history := ff_history s @
         [(HObj (Some searchParams),
           ff_pathname s @ (if searchParams = [] then [] else ''?'' @ searchParams))]\<rparr>"

text \<open>
  The \<open>finally\<close> and the \<open>catch\<close> block of \<open>applyFilters\<close>.
\<close>

definition applyFilters_finally :: "facet_filters \<Rightarrow> facet_filters" where
  "applyFilters_finally s = s\<lparr>ff_results_loading := False\<rparr>"

definition applyFilters_catch :: "js_error \<Rightarrow> facet_filters \<Rightarrow> facet_filters" where
  "applyFilters_catch e s = applyFilters_finally (s\<lparr>ff_console := ff_console s @ [e]\<rparr>)"

definition set_pause :: "string \<Rightarrow> facet_filters \<Rightarrow> facet_filters" where
  "set_pause v s =
     s\<lparr>ff_customPagination :=
         map_option (\<lambda>c. c\<lparr>ph_pauseInfiniteScroll := Some v\<rparr>) (ff_customPagination s)\<rparr>"

definition ff_drop_request :: "nat \<Rightarrow> facet_filters \<Rightarrow> facet_filters" where
  "ff_drop_request n s = s\<lparr>ff_in_flight := filter (\<lambda>r. fr_id r \<noteq> n) (ff_in_flight s)\<rparr>"

definition ff_find_request :: "nat \<Rightarrow> phase \<Rightarrow> ff_request list \<Rightarrow> ff_request option" where
  "ff_find_request n ph rs = List.find (\<lambda>r. fr_id r = n \<and> fr_phase r = ph) rs"

text \<open>
  \<open>applyFilters(searchParams, evt, updateUrl)\<close> from its first line to the \<open>await\<close> of
  \<open>fetch\<close>. Aborting the controller of the previous call rejects the pending promise of
  that call, with the reason given; the call resumes in its \<open>catch\<close> block as soon as the
  running code has reached its \<open>await\<close>, before any other event is handled, and what the
  network delivers for it later is dropped by the browser.
\<close>

definition applyFilters :: "string \<Rightarrow> bool \<Rightarrow> facet_filters \<Rightarrow> facet_filters" where
  "applyFilters searchParams updateUrl s =
     (let s1 = set_pause ''true'' s;
          s2 = s1\<lparr>ff_results_loading := True\<rparr>
      in case ff_closeBtn s2 of
           None \<Rightarrow> applyFilters_catch TypeError s2
         | Some cb \<Rightarrow>
             (let s3 = s2\<lparr>ff_closeBtn := Some (cb\<lparr>cb_ariaDisabled := True, cb_is_loading := True\<rparr>)\<rparr>;
                  fetchUrl = ff_pathname s3 @ ''?'' @ searchParams @
                    (case ff_filterSectionId s3 of
                       None \<Rightarrow> []
                     | Some sid \<Rightarrow> if sid = [] then [] else ''&section_id='' @ sid);
                  aborted = (case ff_controller s3 of
                               None \<Rightarrow> False
                             | Some c \<Rightarrow> c \<in> fr_id ` set (ff_in_flight s3));
                  s4 = (case ff_controller s3 of None \<Rightarrow> s3 | Some c \<Rightarrow> ff_drop_request c s3);
                  s5 = s4\<lparr>ff_controller := Some (ff_next_signal s4),
                          ff_next_signal := Suc (ff_next_signal s4),
                          ff_in_flight := ff_in_flight s4 @
                            [\<lparr>fr_id = ff_next_signal s4, fr_searchParams = searchParams,
                              fr_updateUrl = updateUrl, fr_url = fetchUrl, fr_phase = AwaitFetch\<rparr>]\<rparr>
              in if aborted then applyFilters_catch (Reason ''Request changed'') s5 else s5))"

text \<open>
  From the settling of \<open>fetch\<close> to the \<open>await\<close> of \<open>response.text()\<close>: a response that
  is not ok skips the whole update and logs nothing.
\<close>

definition applyFilters_fetched :: "nat \<Rightarrow> js_error + response \<Rightarrow> facet_filters \<Rightarrow> facet_filters" where
  "applyFilters_fetched n outcome s =
     (case ff_find_request n AwaitFetch (ff_in_flight s) of
        None \<Rightarrow> s
      | Some r \<Rightarrow>
          (case outcome of
             Inl e \<Rightarrow> applyFilters_catch e (ff_drop_request n s)
           | Inr resp \<Rightarrow>
               if ok resp
               then s\<lparr>ff_in_flight := map (\<lambda>r. if fr_id r = n then r\<lparr>fr_phase := AwaitText\<rparr> else r) (ff_in_flight s)\<rparr>
               else applyFilters_finally (ff_drop_request n s)))"

text \<open>
  The body of \<open>if (response.ok)\<close> once the text is parsed. The result is the state
  reached, or the error thrown together with the state reached until then. Scrolling
  and \<open>initLazyImages\<close> leave no trace in this state.
\<close>

definition applyFilters_render :: "ff_request \<Rightarrow> ff_body \<Rightarrow> facet_filters \<Rightarrow> (js_error \<times> facet_filters) + facet_filters" where
  "applyFilters_render r body s =
     (let tmpl = restore_expanded (ff_expanded s) (restore_open (form_groups (ff_form s)) (fragment body)) in
      case getElementById ''facets'' tmpl of
        None \<Rightarrow> Inl (TypeError, s)
      | Some facets \<Rightarrow>
          (let s1 = s\<lparr>ff_form := kids facets\<rparr> in
           case querySelector_class ''js-close-drawer-mob'' tmpl of
             None \<Rightarrow> Inl (TypeError, s1)
           | Some newBtn \<Rightarrow>
               (let s2 = s1\<lparr>ff_closeBtn :=
                              map_option (\<lambda>cb. cb\<lparr>cb_innerText := textContent newBtn\<rparr>) (ff_closeBtn s1)\<rparr>;
                    s3 = (case querySelector_tag ''ul'' (ff_results s2) of
                            None \<Rightarrow> s2
                          | Some ul \<Rightarrow> s2\<lparr>ff_currentResultsClass := cls ul\<rparr>)
                in case getElementById ''filter-results'' tmpl of
                     None \<Rightarrow> Inl (TypeError, s3)
                   | Some newResults \<Rightarrow>
                       (let s4 = s3\<lparr>ff_results := kids newResults\<rparr>;
                            s5 = (if ff_currentResultsClass s4 = [] then s4
                                  else (case set_first_ul_class (ff_currentResultsClass s4) (ff_results s4) of
                                          None \<Rightarrow> s4
                                        | Some rs \<Rightarrow> s4\<lparr>ff_results := rs\<rparr>))
                        in case addListeners_result body of
                             Some e \<Rightarrow> Inl (e, s5)
                           | None \<Rightarrow>
                               (let s6 = s5\<lparr>ff_customPagination :=
                                              map_option (\<lambda>c. if ph_has_reload c then c\<lparr>ph_reloads := Suc (ph_reloads c)\<rparr> else c)
                                                (ff_customPagination s5)\<rparr>;
                                    s7 = (if fr_updateUrl r then updateURL (fr_searchParams r) s6 else s6);
                                    s8 = s7\<lparr>ff_closeBtn :=
                                              map_option (\<lambda>cb. cb\<lparr>cb_is_loading := False, cb_ariaDisabled := False\<rparr>) (ff_closeBtn s7)\<rparr>;
                                    s9 = set_pause ''false'' s8
                                in Inr (s9\<lparr>ff_dispatched := ff_dispatched s9 @ [''on:facet-filters:updated'']\<rparr>))))))"

definition applyFilters_text :: "nat \<Rightarrow> js_error + ff_body \<Rightarrow> facet_filters \<Rightarrow> facet_filters" where
  "applyFilters_text n outcome s =
     (case ff_find_request n AwaitText (ff_in_flight s) of
        None \<Rightarrow> s
      | Some r \<Rightarrow>
          (case outcome of
             Inl e \<Rightarrow> applyFilters_catch e (ff_drop_request n s)
           | Inr body \<Rightarrow>
               (case applyFilters_render r body (ff_drop_request n s) of
                  Inl (e, s') \<Rightarrow> applyFilters_catch e s'
                | Inr s' \<Rightarrow> applyFilters_finally s')))"

text \<open>
  \<open>handleHistoryChange(evt)\<close>, given \<open>evt.state\<close>, and \<open>handleFilterChange(evt)\<close>, given
  the entries of the form.
\<close>

definition handleHistoryChange :: "hstate \<Rightarrow> facet_filters \<Rightarrow> facet_filters" where
  "handleHistoryChange st s =
     (case st of
        HNull \<Rightarrow> s
      | HObj sp \<Rightarrow>
          applyFilters (case sp of None \<Rightarrow> [] | Some p \<Rightarrow> if p = [] then [] else p) False s)"

definition handleFilterChange_event :: "params \<Rightarrow> filter_event \<Rightarrow> facet_filters \<Rightarrow> facet_filters" where
  "handleFilterChange_event formData evt s =
     (case handleFilterChange (ff_sortingEnabled s) (ff_mobileSortByOptions s) formData evt of
        Inl e \<Rightarrow> s
      | Inr (opts', searchParams) \<Rightarrow> applyFilters searchParams True (s\<lparr>ff_mobileSortByOptions := opts'\<rparr>))"

text \<open>
  \<open>target.closest('.filter')\<close> for a target inside the form is the nearest element with
  class \<open>filter\<close> among the target, its ancestors inside the form, the form element and the
  elements above the form: either the element of the form at an address, or one of the
  outer elements, of which the form element, found by \<open>getElementById('facets')\<close>, is the
  first. \<open>closest_id\<close> is the id of the element found.
\<close>

datatype closest = Inside "nat list" | Outside outer_el

definition closest_inside :: "nat list \<Rightarrow> node list \<Rightarrow> nat list option" where
  "closest_inside path ks =
     List.find (\<lambda>p. has_class ''filter'' (node_at p ks))
       (map (\<lambda>n. take n path) (rev [1..<Suc (length path)]))"

definition closest_outer :: "outer_el list \<Rightarrow> outer_el option" where
  "closest_outer es = List.find (\<lambda>e. ''filter'' \<in> set (oe_cls e)) es"

definition form_el :: "facet_filters \<Rightarrow> outer_el" where
  "form_el s = \<lparr>oe_tag = ''form'', oe_id = ''facets'', oe_cls = ff_form_cls s, oe_results = False\<rparr>"

definition closest_filter :: "nat list \<Rightarrow> facet_filters \<Rightarrow> closest option" where
  "closest_filter path s =
     (case closest_inside path (ff_form s) of
        Some fp \<Rightarrow> Some (Inside fp)
      | None \<Rightarrow> map_option Outside (closest_outer (form_el s # ff_form_outer s)))"

definition closest_id :: "nat list \<Rightarrow> facet_filters \<Rightarrow> string option" where
  "closest_id path s =
     (case closest_filter path s of
        None \<Rightarrow> None
      | Some (Inside fp) \<Rightarrow> map_option nid (node_at fp (ff_form s))
      | Some (Outside e) \<Rightarrow> Some (oe_id e))"

text \<open>
  \<open>querySelectorAll('li')\<close> with \<open>classList.remove('js-hidden')\<close> on outer elements, the
  nearest first: on those that lie below the nearest one with class \<open>filter\<close>.
\<close>

fun unhide_outer :: "outer_el list \<Rightarrow> outer_el list" where
  "unhide_outer [] = []"
| "unhide_outer (e # es) =
     (if ''filter'' \<in> set (oe_cls e) then e # es
      else e\<lparr>oe_cls := (if oe_tag e = ''li'' then removeAll ''js-hidden'' (oe_cls e) else oe_cls e)\<rparr>
           # unhide_outer es)"

text \<open>
  The branch of \<open>handleFiltersClick(evt)\<close> for a \<open>.js-show-more\<close> target, the element of
  the form at the given address. The target is removed; then every \<open>li\<close> element below the
  closest \<open>.filter\<close> element loses the class \<open>js-hidden\<close>, and the id of that element is
  recorded. An outer \<open>.filter\<close> element has the whole content of the form below it, the
  form element and the ancestors up to it unless it is the form element itself, and the
  results if it is marked so. With no \<open>.filter\<close> element at all the handler throws after
  the target is removed.
\<close>

definition show_more_click :: "nat list \<Rightarrow> facet_filters \<Rightarrow> facet_filters" where
  "show_more_click path s =
     (if has_class ''js-show-more'' (node_at path (ff_form s)) then
        (case closest_filter path s of
           None \<Rightarrow> s\<lparr>ff_form := remove_at path (ff_form s)\<rparr>
         | Some (Outside e) \<Rightarrow>
             s\<lparr>ff_form := map unhide_items (remove_at path (ff_form s)),
               ff_form_outer := tl (unhide_outer (form_el s # ff_form_outer s)),
               ff_results := (if oe_results e then map unhide_items (ff_results s) else ff_results s),
               ff_expanded := (if oe_id e \<in> set (ff_expanded s) then ff_expanded s
                               else ff_expanded s @ [oe_id e])\<rparr>
         | Some (Inside fp) \<Rightarrow>
             (case node_at fp (ff_form s) of
                None \<Rightarrow> s
              | Some filterEl \<Rightarrow>
                  s\<lparr>ff_form := (if fp = path then remove_at path (ff_form s)
                                  else update_at fp show_items (remove_at path (ff_form s))),
                    ff_expanded := (if nid filterEl \<in> set (ff_expanded s) then ff_expanded s
                                    else ff_expanded s @ [nid filterEl])\<rparr>))
      else s)"

text \<open>
  \<open>handleFiltersClick(evt)\<close> for a click on the element of the form at the given address.
  \<open>href_params\<close> is \<open>new URL(evt.target.href).searchParams.toString()\<close>, or \<open>None\<close> when the
  \<open>URL\<close> constructor throws, which ends the handler. The two branches of the handler run
  one after the other: the one for \<open>.js-clear-filter\<close>, then the one for \<open>.js-show-more\<close>.
\<close>

definition handleFiltersClick :: "nat list \<Rightarrow> string option \<Rightarrow> facet_filters \<Rightarrow> facet_filters" where
  "handleFiltersClick path href_params s =
     (if has_class ''js-clear-filter'' (node_at path (ff_form s)) then
        (case href_params of
           None \<Rightarrow> s
         | Some p \<Rightarrow> show_more_click path (applyFilters p True s))
      else show_more_click path s)"

text \<open>
  What can happen to the component, one event at a time: a call of \<open>applyFilters\<close> by
  a click on an active filter, an \<open>input\<close> or \<open>change\<close> event, a click on the filters, a
  \<open>popstate\<close> event, and the settling of a \<open>fetch\<close> or of a body read.
\<close>

datatype ff_event =
  ApplyFilters string bool
  | FilterChange params filter_event
  | FiltersClick "nat list" "string option"
  | PopState hstate
  | FacetsFetchSettles nat "js_error + response"
  | FacetsTextSettles nat "js_error + ff_body"

fun ff_step :: "facet_filters \<Rightarrow> ff_event \<Rightarrow> facet_filters" where
  "ff_step s (ApplyFilters p u) = applyFilters p u s"
| "ff_step s (FilterChange formData evt) = handleFilterChange_event formData evt s"
| "ff_step s (FiltersClick path href_params) = handleFiltersClick path href_params s"
| "ff_step s (PopState st) = handleHistoryChange st s"
| "ff_step s (FacetsFetchSettles n outcome) = applyFilters_fetched n outcome s"
| "ff_step s (FacetsTextSettles n outcome) = applyFilters_text n outcome s"

definition ff_run :: "facet_filters \<Rightarrow> ff_event list \<Rightarrow> facet_filters" where
  "ff_run s evs = foldl ff_step s evs"

text \<open>
  Every pending call was made with the current controller and is the most recent one.
\<close>

definition latest_only :: "facet_filters \<Rightarrow> bool" where
  "latest_only s \<longleftrightarrow>
     (\<forall>r \<in> set (ff_in_flight s). ff_controller s = Some (fr_id r) \<and> Suc (fr_id r) = ff_next_signal s)"

text \<open>
  The events of history navigation and of the network, and the states in which no
  pending call was asked to update the address.
\<close>

definition history_event :: "ff_event \<Rightarrow> bool" where
  "history_event e =
     (case e of PopState st \<Rightarrow> True | FacetsFetchSettles n out \<Rightarrow> True
      | FacetsTextSettles n out \<Rightarrow> True | _ \<Rightarrow> False)"

definition no_push_pending :: "facet_filters \<Rightarrow> bool" where
  "no_push_pending s \<longleftrightarrow> list_all (\<lambda>r. \<not> fr_updateUrl r) (ff_in_flight s)"

text \<open>
  A page with one open filter group, which the user has expanded with its show-more
  button; a response in which this group is closed and collapsed again, beside a second
  group.
\<close>

definition example_facets :: facet_filters where
  "example_facets =
     \<lparr>ff_sortingEnabled = False, ff_mobileSortByOptions = [],
      ff_form = [Elem ''details-disclosure'' [] [] False
                   [Elem ''details'' ''filter-color'' [''filter''] True
                      [Elem ''li'' [] [] False [Text ''Red'']]]],
      ff_form_cls = [''facets''],
      ff_form_outer = [\<lparr>oe_tag = ''facet-filters'', oe_id = [], oe_cls = [], oe_results = False\<rparr>,
                       \<lparr>oe_tag = ''body'', oe_id = [], oe_cls = [], oe_results = True\<rparr>],
      ff_filterSectionId = Some ''main'',
      ff_results = [Elem ''ul'' [] [''grid''] False [Elem ''li'' [] [] False [Text ''Shirt'']]],
      ff_results_loading = False,
      ff_closeBtn = Some \<lparr>cb_ariaDisabled = False, cb_is_loading = False, cb_innerText = ''Show 1 result''\<rparr>,
      ff_expanded = [''filter-color''], ff_currentResultsClass = [], ff_controller = None,
      ff_customPagination = Some \<lparr>ph_pauseInfiniteScroll = Some ''false'', ph_has_reload = True, ph_reloads = 0\<rparr>,
      ff_pathname = ''/collections/x'', ff_history = [], ff_console = [], ff_dispatched = [],
      ff_in_flight = [], ff_next_signal = 0\<rparr>"

definition red_page :: ff_body where
  "red_page =
     \<lparr>fragment =
        [Elem ''form'' ''facets'' [] False
           [Elem ''details-disclosure'' [] [] False
              [Elem ''details'' ''filter-color'' [''filter''] False
                 [Elem ''li'' [] [] False [Text ''Red''],
                  Elem ''li'' [] [''js-hidden''] False [Text ''Teal''],
                  Elem ''div'' [] [''filter__more''] False
                    [Elem ''button'' [] [''js-show-more''] False [Text ''Show more'']]]],
            Elem ''details-disclosure'' [] [] False
              [Elem ''details'' ''filter-size'' [''filter''] False
                 [Elem ''li'' [] [] False [Text ''S''],
                  Elem ''li'' [] [''js-hidden''] False [Text ''XXL''],
                  Elem ''div'' [] [''filter__more''] False
                    [Elem ''button'' [] [''js-show-more''] False [Text ''Show more'']]]]],
         Elem ''button'' [] [''js-close-drawer-mob''] False [Text ''Show 2 results''],
         Elem ''div'' ''filter-results'' [] False
           [Elem ''ul'' [] [] False [Elem ''li'' [] [] False [Text ''Red shirt'']]]],
      addListeners_result = None\<rparr>"

text \<open>
  The example after \<open>applyFilters('a=1')\<close>, and after its response has arrived.
\<close>

definition awaiting_response :: facet_filters where
  "awaiting_response = ff_run example_facets [ApplyFilters ''a=1'' True]"

definition awaiting_body :: facet_filters where
  "awaiting_body = ff_run example_facets [ApplyFilters ''a=1'' True, FacetsFetchSettles 0 (Inr ok_response)]"

text \<open>
  A page whose only filter group is open and still collapsed.
\<close>

definition collapsed_page :: facet_filters where
  "collapsed_page = example_facets\<lparr>ff_form :=
     [Elem ''details-disclosure'' [] [] False
        [Elem ''details'' ''filter-size'' [''filter''] True
           [Elem ''li'' [] [] False [Text ''S''],
            Elem ''li'' [] [''js-hidden''] False [Text ''XXL''],
            Elem ''div'' [] [''filter__more''] False
              [Elem ''button'' [] [''js-show-more''] False [Text ''Show more'']]]]],
     ff_expanded := []\<rparr>"

text \<open>
  A page whose only filter group is open and has no id, and a response with the same
  group, closed as the server delivers it.
\<close>

definition anonymous_page :: facet_filters where
  "anonymous_page = example_facets\<lparr>ff_form :=
     [Elem ''details-disclosure'' [] [] False
        [Elem ''details'' [] [''filter''] True [Elem ''li'' [] [] False [Text ''Red'']]]],
     ff_expanded := []\<rparr>"

definition anonymous_body :: ff_body where
  "anonymous_body =
     \<lparr>fragment =
        [Elem ''form'' ''facets'' [] False
           [Elem ''details-disclosure'' [] [] False
              [Elem ''details'' [] [''filter''] False [Elem ''li'' [] [] False [Text ''Red'']]]],
         Elem ''button'' [] [''js-close-drawer-mob''] False [Text ''Show 1 result''],
         Elem ''div'' ''filter-results'' [] False
           [Elem ''ul'' [] [] False [Elem ''li'' [] [] False [Text ''Red shirt'']]]],
      addListeners_result = None\<rparr>"

text \<open>
  For stating what survives the replacement of the form: how often an id occurs among
  elements, whether a content has no element of class \<open>js-hidden\<close>, how many elements of
  class \<open>filter__more\<close> it has, and the filter groups of a parsed response.
\<close>

definition id_count :: "string \<Rightarrow> node list \<Rightarrow> nat" where
  "id_count g es = length (filter (\<lambda>e. nid e = g) es)"

definition hidden_free :: "node list \<Rightarrow> bool" where
  "hidden_free ks \<longleftrightarrow> (\<forall>e \<in> set (elements_of ks). ''js-hidden'' \<notin> set (cls e))"

definition more_count :: "node list \<Rightarrow> nat" where
  "more_count ks = length (filter (\<lambda>e. ''filter__more'' \<in> set (cls e)) (elements_of ks))"

definition facets_groups :: "node list \<Rightarrow> node list" where
  "facets_groups T = concat (map (facets_groups_in False False) T)"

text \<open>
  For the proofs: the id, tag and \<open>open\<close> attribute of the elements in document order,
  the effect of \<open>set_open\<close> on that list, a tree with its \<open>open\<close> attributes erased, and the
  relation between a filter group and the group it comes from.
\<close>

definition attrs :: "node \<Rightarrow> (string \<times> string \<times> bool) list" where
  "attrs n = map (\<lambda>e. (nid e, tag e, nopen e)) (elements n)"

definition attrs_of :: "node list \<Rightarrow> (string \<times> string \<times> bool) list" where
  "attrs_of ks = concat (map attrs ks)"

fun set_first_open :: "string \<Rightarrow> bool \<Rightarrow> (string \<times> string \<times> bool) list \<Rightarrow> (string \<times> string \<times> bool) list option" where
  "set_first_open i v [] = None"
| "set_first_open i v ((j, t, b) # xs) =
     (if j = i then Some ((j, t, if t = ''details'' \<or> t = ''dialog'' then v else b) # xs)
      else map_option ((#) (j, t, b)) (set_first_open i v xs))"

definition all_open :: "string \<Rightarrow> (string \<times> string \<times> bool) list \<Rightarrow> bool" where
  "all_open g xs \<longleftrightarrow> (\<forall>x \<in> set xs. fst x = g \<and> fst (snd x) = ''details'' \<longrightarrow> snd (snd x))"

fun shape :: "node \<Rightarrow> node" where
  "shape (Text s) = Text s"
| "shape (Elem t i c b ks) = Elem t i c False (map shape ks)"

definition covers :: "node \<Rightarrow> node \<Rightarrow> bool" where
  "covers G G' \<longleftrightarrow> nid G = nid G' \<and> more_count (kids G') \<le> more_count (kids G)"

section \<open>Properties of the parameter serialisation\<close>

lemma foldl_params_delete:
  "foldl params_delete ps ks = filter (\<lambda>(k, v). k \<notin> set ks) ps"
  by (induction ks arbitrary: ps) (auto simp: params_delete_def intro: filter_cong)

lemma remove_empty_filter:
  "remove_empty ps = filter (\<lambda>(k, v). k \<notin> set (emptyParams ps)) ps"
  by (simp add: remove_empty_def foldl_params_delete)

lemma in_emptyParams: "k \<in> set (emptyParams ps) \<longleftrightarrow> (k, []) \<in> set ps"
  by (force simp: emptyParams_def)

lemma remove_empty_values: "(k, v) \<in> set (remove_empty ps) \<Longrightarrow> v \<noteq> []"
  by (auto simp: remove_empty_filter in_emptyParams)

lemma remove_empty_keys: "(k, []) \<in> set ps \<Longrightarrow> k \<notin> fst ` set (remove_empty ps)"
  by (auto simp: remove_empty_filter in_emptyParams)

lemma of_char_hex_digit:
  "n < 16 \<Longrightarrow> (of_char (hex_digit n) :: nat) = (if n < 10 then 48 + n else 55 + n)"
  by (simp add: hex_digit_def)

lemma hex_digit_plain: 
  assumes "n < 16" shows "hex_digit n \<noteq> CHR ''&'' \<and> hex_digit n \<noteq> CHR ''=''"
proof -
  have "(of_char (hex_digit n) :: nat) \<noteq> 38" "(of_char (hex_digit n) :: nat) \<noteq> 61"
    using assms by (auto simp: of_char_hex_digit)
  then show ?thesis by auto
qed

lemma encode_byte_plain: "CHR ''&'' \<notin> set (encode_byte c) \<and> CHR ''='' \<notin> set (encode_byte c)"
proof -
  have "(of_char c :: nat) < 256" by simp
  then have d: "(of_char c :: nat) div 16 < 16" by arith
  have m: "(of_char c :: nat) mod 16 < 16" by simp
  have u: "form_unreserved c \<Longrightarrow> c \<noteq> CHR ''&'' \<and> c \<noteq> CHR ''=''"
    by (auto simp: form_unreserved_def)
  show ?thesis
    using hex_digit_plain[OF d] hex_digit_plain[OF m] u
    by (auto simp: encode_byte_def)
qed

lemma takeWhile_until: "c \<notin> set a \<Longrightarrow> takeWhile (\<lambda>x. x \<noteq> c) (a @ c # b) = a"
  by (induction a) auto

lemma dropWhile_until: "c \<notin> set a \<Longrightarrow> dropWhile (\<lambda>x. x \<noteq> c) (a @ c # b) = c # b"
  by (induction a) auto

lemma form_encode_plain: "CHR ''&'' \<notin> set (form_encode s) \<and> CHR ''='' \<notin> set (form_encode s)"
  by (induction s) (auto simp: form_encode_def encode_byte_plain)

lemma encode_byte_nonempty: "encode_byte c \<noteq> []"
  by (simp add: encode_byte_def)

lemma form_encode_empty: "form_encode s = [] \<longleftrightarrow> s = []"
  by (cases s) (auto simp: form_encode_def encode_byte_nonempty)

lemma split_on_plain: "c \<notin> set a \<Longrightarrow> split_on c a = [a]"
  by (induction a) auto

lemma split_on_append: "c \<notin> set a \<Longrightarrow> split_on c (a @ c # b) = a # split_on c b"
  by (induction a) auto

lemma pair_string_plain: "CHR ''&'' \<notin> set (pair_string p)"
  by (simp add: pair_string_def form_encode_plain)

lemma split_join_amp:
  "ss \<noteq> [] \<Longrightarrow> \<forall>s\<in>set ss. CHR ''&'' \<notin> set s \<Longrightarrow> split_on CHR ''&'' (join_amp ss) = ss"
proof (induction ss rule: join_amp.induct)
  case 1 then show ?case by simp
next
  case (2 s) then show ?case by (simp add: split_on_plain)
next
  case (3 s t ss)
  then show ?case by (simp add: split_on_append)
qed

lemma query_pairs_toString:
  "query_pairs (params_toString ps) = map (\<lambda>(k, v). (form_encode k, form_encode v)) ps"
proof (cases "ps = []")
  case True
  then show ?thesis by (simp add: query_pairs_def params_toString_def)
next
  case False
  have eq: "map (\<lambda>(k, v). form_encode k @ ''='' @ form_encode v) ps = map pair_string ps"
    by (auto simp: pair_string_def)
  have sp: "split_on CHR ''&'' (params_toString ps) = map pair_string ps"
    unfolding params_toString_def eq using False
    by (intro split_join_amp) (auto simp: pair_string_plain)
  have ne: "filter (\<lambda>seg. seg \<noteq> []) (map pair_string ps) = map pair_string ps"
    by (induction ps) (auto simp: pair_string_def)
  have tw: "takeWhile (\<lambda>c. c \<noteq> CHR ''='') (pair_string p) = form_encode (fst p)" for p
    unfolding pair_string_def using form_encode_plain[of "fst p"]
    by (simp add: takeWhile_until)
  have dw: "dropWhile (\<lambda>c. c \<noteq> CHR ''='') (pair_string p) = ''='' @ form_encode (snd p)" for p
    unfolding pair_string_def using form_encode_plain[of "fst p"]
    by (simp add: dropWhile_until)
  show ?thesis
    unfolding query_pairs_def sp ne by (auto simp: tw dw)
qed

lemma hex_digit_inj: "m < 16 \<Longrightarrow> n < 16 \<Longrightarrow> hex_digit m = hex_digit n \<Longrightarrow> m = n"
proof -
  assume a: "m < 16" "n < 16" "hex_digit m = hex_digit n"
  then have "(of_char (hex_digit m) :: nat) = of_char (hex_digit n)" by simp
  then have "(if m < 10 then 48 + m else 55 + m) = (if n < 10 then 48 + n else 55 + n)"
    unfolding of_char_hex_digit[OF a(1)] of_char_hex_digit[OF a(2)] .
  then show ?thesis by (auto split: if_splits)
qed

lemma byte_from_nibbles:
  assumes "(of_char x :: nat) div 16 = of_char y div 16" "(of_char x :: nat) mod 16 = of_char y mod 16"
  shows "x = y"
proof -
  have "(of_char x :: nat) = of_char y"
    using assms by (metis div_mult_mod_eq)
  then show ?thesis by simp
qed

lemma encode_byte_prefix_free:
  assumes "encode_byte x @ r = encode_byte y @ r'"
  shows "x = y \<and> r = r'"
proof -
  have "(of_char x :: nat) < 256" "(of_char y :: nat) < 256" by simp_all
  then have dx: "(of_char x :: nat) div 16 < 16" and dy: "(of_char y :: nat) div 16 < 16"
    by arith+
  have mx: "(of_char x :: nat) mod 16 < 16" and my: "(of_char y :: nat) mod 16 < 16" by simp_all
  have u: "form_unreserved c \<Longrightarrow> c \<noteq> CHR ''%'' \<and> c \<noteq> CHR ''+''" for c
    by (auto simp: form_unreserved_def)
  show ?thesis
    using assms u[of x] u[of y]
    by (auto simp: encode_byte_def split: if_splits
        dest!: hex_digit_inj[OF dx dy] hex_digit_inj[OF mx my] intro: byte_from_nibbles)
qed

lemma form_encode_inj: "form_encode a = form_encode b \<Longrightarrow> a = b"
proof (induction a arbitrary: b)
  case Nil
  then show ?case by (metis form_encode_empty)
next
  case (Cons x a)
  then obtain y b' where b: "b = y # b'"
    by (cases b) (auto simp: form_encode_def encode_byte_nonempty)
  from Cons.prems have "encode_byte x @ form_encode a = encode_byte y @ form_encode b'"
    by (simp add: b form_encode_def)
  then have "x = y" "form_encode a = form_encode b'"
    using encode_byte_prefix_free by blast+
  with Cons.IH b show ?case by simp
qed

section \<open>Properties of handleFilterChange\<close>

text \<open>
  C6. Whatever the form holds, the string that \<open>handleFilterChange\<close> passes to \<open>applyFilters\<close>
  has no parameter with an empty value: every parameter read back from that string has a
  non-empty value.
\<close>

theorem handleFilterChange_strips_empty_values:
  assumes "handleFilterChange sortingEnabled opts formData evt = Inr (opts', s)"
  shows "\<forall>(k, v) \<in> set (query_pairs s). v \<noteq> []"
proof -
  from assms obtain ps where
    ps: "handleFilterChange_params sortingEnabled opts formData evt = Inr (opts', ps)"
    and s: "s = params_toString ps"
    by (auto simp: handleFilterChange_def split: sum.splits)
  from ps obtain sp where "ps = remove_empty sp"
    by (auto simp: handleFilterChange_params_def split: sum.splits)
  then have "\<forall>(k, v) \<in> set ps. v \<noteq> []"
    by (auto dest: remove_empty_values)
  then show ?thesis
    unfolding s query_pairs_toString by (auto simp: form_encode_empty)
qed


theorem handleFilterChange_strips_empty_values_witness:
  "handleFilterChange True [] [(''a'', ''''), (''a'', ''x y''), (''b'', ''1&'')]
      \<lparr>tagName = ''INPUT'', detail = None\<rparr> = Inr ([], ''b=1%26&sort_by=null'')
   \<and> list_all (\<lambda>(k, v). v \<noteq> []) (query_pairs ''b=1%26&sort_by=null'')"
proof -
  have h: "handleFilterChange True [] [(''a'', ''''), (''a'', ''x y''), (''b'', ''1&'')]
      \<lparr>tagName = ''INPUT'', detail = None\<rparr> = Inr ([], ''b=1%26&sort_by=null'')"
    by code_simp
  show ?thesis using h handleFilterChange_strips_empty_values[OF h] by (simp add: list_all_iff)
qed


lemma params_set_name: "(n, w) \<in> set (params_set ps n v) \<longleftrightarrow> w = v"
  by (induction ps n v rule: params_set.induct) (auto simp: params_delete_def)

lemma params_set_other: "k \<noteq> n \<Longrightarrow> (k, w) \<in> set (params_set ps n v) \<longleftrightarrow> (k, w) \<in> set ps"
  by (induction ps n v rule: params_set.induct) (auto simp: params_delete_def)

lemma remove_empty_absent:
  assumes "(k, []) \<in> set ps"
  shows "form_encode k \<notin> fst ` set (query_pairs (params_toString (remove_empty ps)))"
proof
  assume "form_encode k \<in> fst ` set (query_pairs (params_toString (remove_empty ps)))"
  then obtain k' v' where "(k', v') \<in> set (remove_empty ps)" "form_encode k' = form_encode k"
    unfolding query_pairs_toString by auto
  then have "(k, v') \<in> set (remove_empty ps)" by (auto dest: form_encode_inj)
  with remove_empty_keys[OF assms] show False by force
qed

lemma remove_empty_present:
  assumes "(k, v) \<in> set ps" "(k, []) \<notin> set ps"
  shows "(form_encode k, form_encode v) \<in> set (query_pairs (params_toString (remove_empty ps)))"
proof -
  from assms have "(k, v) \<in> set (remove_empty ps)"
    by (simp add: remove_empty_filter in_emptyParams)
  then show ?thesis unfolding query_pairs_toString by force
qed

lemma handleFilterChange_merge:
  "handleFilterChange sortingEnabled opts formData evt = Inr (opts', s) \<Longrightarrow>
     \<exists>ps. merge_sort_by sortingEnabled opts formData evt = Inr (opts', ps)
          \<and> s = params_toString (remove_empty ps)"
  by (auto simp: handleFilterChange_def handleFilterChange_params_def split: sum.splits)

text \<open>
  C9, as stated, fails for \<open>sort_by\<close> when sorting is enabled: the form has \<open>sort_by\<close> with
  a non-empty and with an empty value, \<open>set\<close> replaces both pairs by one with the first
  value before the stripping starts, and \<open>sort_by\<close> is passed to \<open>applyFilters\<close>.
\<close>

theorem handleFilterChange_keeps_merged_sort_by:
  "handleFilterChange True [] [(''sort_by'', ''price''), (''sort_by'', [])]
      \<lparr>tagName = ''INPUT'', detail = None\<rparr> = Inr ([], ''sort_by=price'')
   \<and> query_pairs ''sort_by=price'' = [(''sort_by'', ''price'')]"
  by code_simp

text \<open>
  C9, amended. The stripping removes names, not pairs. A name that has an empty value in
  the serialised form does not occur at all in the string passed to \<open>applyFilters\<close>,
  whatever other values it had, unless it is \<open>sort_by\<close> and sorting is enabled. More
  generally, this holds of every name that has an empty value among the parameters when
  the stripping starts, that is, after \<open>sort_by\<close> was merged in. And with sorting enabled
  and an event that does not come from the desktop dropdown, \<open>sort_by\<close> is passed with the
  first value it has in the form, if that is not empty, whatever other values it has.
\<close>

theorem handleFilterChange_deletes_every_occurrence:
  assumes "handleFilterChange sortingEnabled opts formData evt = Inr (opts', s)"
  shows "(\<forall>k. (k, []) \<in> set formData \<and> \<not> (sortingEnabled \<and> k = ''sort_by'') \<longrightarrow>
            form_encode k \<notin> fst ` set (query_pairs s))
       \<and> (\<forall>searchParams k.
            merge_sort_by sortingEnabled opts formData evt = Inr (opts', searchParams)
            \<and> (k, []) \<in> set searchParams \<longrightarrow>
            form_encode k \<notin> fst ` set (query_pairs s))
       \<and> (\<forall>v. sortingEnabled \<and> tagName evt \<noteq> ''CUSTOM-SELECT''
            \<and> params_get formData ''sort_by'' = Some v \<and> v \<noteq> [] \<longrightarrow>
            (''sort_by'', form_encode v) \<in> set (query_pairs s))"
proof -
  from handleFilterChange_merge[OF assms] obtain ps where
    m: "merge_sort_by sortingEnabled opts formData evt = Inr (opts', ps)"
    and s: "s = params_toString (remove_empty ps)" by blast
  have 2: "form_encode k \<notin> fst ` set (query_pairs s)"
    if "merge_sort_by sortingEnabled opts formData evt = Inr (opts', searchParams)"
      "(k, []) \<in> set searchParams" for searchParams k
  proof -
    from that(1) m have "searchParams = ps" by simp
    with that(2) show ?thesis unfolding s by (simp add: remove_empty_absent)
  qed
  have 1: "form_encode k \<notin> fst ` set (query_pairs s)"
    if k: "(k, []) \<in> set formData" "\<not> (sortingEnabled \<and> k = ''sort_by'')" for k
  proof (cases sortingEnabled)
    case False
    with m have "ps = formData" by (simp add: merge_sort_by_def)
    with k(1) show ?thesis using 2[OF m] by simp
  next
    case True
    with k(2) have ne: "k \<noteq> ''sort_by''" by simp
    from m True obtain x where "ps = params_set formData ''sort_by'' x"
      by (auto simp: merge_sort_by_def Let_def split: sum.splits if_splits)
    with k(1) ne have "(k, []) \<in> set ps" by (simp add: params_set_other)
    then show ?thesis using 2[OF m] by simp
  qed
  have 3: "(''sort_by'', form_encode v) \<in> set (query_pairs s)"
    if v: "sortingEnabled" "tagName evt \<noteq> ''CUSTOM-SELECT''"
      "params_get formData ''sort_by'' = Some v" "v \<noteq> []" for v
  proof -
    from m v(1,2,3) have ps: "ps = params_set formData ''sort_by'' v"
      by (simp add: merge_sort_by_def)
    have "(''sort_by'', v) \<in> set ps" "(''sort_by'', []) \<notin> set ps"
      using v(4) unfolding ps by (simp_all add: params_set_name)
    from remove_empty_present[OF this] have
      "(form_encode ''sort_by'', form_encode v) \<in> set (query_pairs s)" unfolding s .
    moreover have "form_encode ''sort_by'' = ''sort_by''" by code_simp
    ultimately show ?thesis by simp
  qed
  show ?thesis
  proof (intro conjI allI impI)
    fix k
    assume "(k, []) \<in> set formData \<and> \<not> (sortingEnabled \<and> k = ''sort_by'')"
    then show "form_encode k \<notin> fst ` set (query_pairs s)" by (elim conjE) (rule 1)
  next
    fix searchParams k
    assume "merge_sort_by sortingEnabled opts formData evt = Inr (opts', searchParams)
            \<and> (k, []) \<in> set searchParams"
    then show "form_encode k \<notin> fst ` set (query_pairs s)" by (elim conjE) (rule 2)
  next
    fix v
    assume "sortingEnabled \<and> tagName evt \<noteq> ''CUSTOM-SELECT''
            \<and> params_get formData ''sort_by'' = Some v \<and> v \<noteq> []"
    then show "(''sort_by'', form_encode v) \<in> set (query_pairs s)" by (elim conjE) (rule 3)
  qed
qed

theorem handleFilterChange_deletes_every_occurrence_witness:
  "handleFilterChange True [] [(''a'', []), (''a'', ''x y''), (''sort_by'', ''price''), (''sort_by'', [])]
      \<lparr>tagName = ''INPUT'', detail = None\<rparr> = Inr ([], ''sort_by=price'')
   \<and> (''a'', []) \<in> set [(''a'', []), (''a'', ''x y''), (''sort_by'', ''price''), (''sort_by'', [])]
   \<and> ''a'' \<notin> fst ` set (query_pairs ''sort_by=price'')
   \<and> params_get [(''a'', []), (''a'', ''x y''), (''sort_by'', ''price''), (''sort_by'', [])] ''sort_by''
        = Some ''price''
   \<and> (''sort_by'', ''price'') \<in> set (query_pairs ''sort_by=price'')"
proof -
  let ?form = "[(''a'', []), (''a'', ''x y''), (''sort_by'', ''price''), (''sort_by'', [])]"
  let ?evt = "\<lparr>tagName = ''INPUT'', detail = None\<rparr>"
  have h: "handleFilterChange True [] ?form ?evt = Inr ([], ''sort_by=price'')" by code_simp
  have m: "(''a'', []) \<in> set ?form" by simp
  have g: "params_get ?form ''sort_by'' = Some ''price''" by simp
  have e1: "form_encode ''a'' = ''a''" by code_simp
  have e2: "form_encode ''price'' = ''price''" by code_simp
  note th = handleFilterChange_deletes_every_occurrence[OF h]
  have p1: "(''a'', []) \<in> set ?form \<and> \<not> (True \<and> ''a'' = ''sort_by'')" by simp
  have "form_encode ''a'' \<notin> fst ` set (query_pairs ''sort_by=price'')"
    by (rule th[THEN conjunct1, THEN spec, THEN mp, OF p1])
  then have c1: "''a'' \<notin> fst ` set (query_pairs ''sort_by=price'')" unfolding e1 .
  have p3: "True \<and> tagName ?evt \<noteq> ''CUSTOM-SELECT''
      \<and> params_get ?form ''sort_by'' = Some ''price'' \<and> ''price'' \<noteq> []" by simp
  have "(''sort_by'', form_encode ''price'') \<in> set (query_pairs ''sort_by=price'')"
    by (rule th[THEN conjunct2, THEN conjunct2, THEN spec, THEN mp, OF p3])
  then have c2: "(''sort_by'', ''price'') \<in> set (query_pairs ''sort_by=price'')" unfolding e2 .
  show ?thesis by (intro conjI h m c1 g c2)
qed

section \<open>Properties of CartDrawer.refresh\<close>

text \<open>
  C3. On the instance as constructed, a failed \<open>fetch\<close> does not end in an
  \<open>on:cart:error\<close> event: the \<open>catch\<close> block logs the error and then throws a TypeError of
  its own, because \<open>this.errorMsg\<close> is \<open>undefined\<close>; the promise of \<open>refresh\<close> is rejected and
  nothing is dispatched. And on any instance, an error inside \<open>renderContents\<close> is not seen
  by \<open>refresh\<close> at all: the promise of \<open>refresh\<close> is fulfilled and nothing is dispatched.
\<close>

theorem refresh_rejects_when_fetch_fails:
  "refresh dont \<lparr>cartItems_refresh = c, fetch_result = Some e, json_result = j, renderContents_result = r\<rparr>
      (CartDrawer_constructor False (Some sec))
   = (Some TypeError,
      (CartDrawer_constructor False (Some sec))
        \<lparr>cd_console := [e], cd_fetched := [''?sections='' @ sec @ '',cart-icon-bubble'']\<rparr>)
   \<and> refresh dont \<lparr>cartItems_refresh = c, fetch_result = None, json_result = Inr sections, renderContents_result = Some e\<rparr>
      (s\<lparr>cd_has_cartItems := False, cd_section := Some sec\<rparr>)
   = (None, s\<lparr>cd_has_cartItems := False, cd_section := Some sec,
               cd_fetched := cd_fetched s @ [''?sections='' @ sec @ '',cart-icon-bubble''],
               cd_rendered := cd_rendered s @ [sections]\<rparr>)"
  by (simp add: refresh_def refresh_catch_def CartDrawer_constructor_def)

section \<open>Properties of CustomPagination.loadMore\<close>

lemma finally_fields [simp]:
  "in_flight (loadMore_finally s) = in_flight s"
  "results (loadMore_finally s) = results s"
  "isFetching (loadMore_finally s) = False"
  "controller (loadMore_finally s) = None"
  "pauseInfiniteScroll (loadMore_finally s) = pauseInfiniteScroll s"
  "active_timers (loadMore_finally s) = active_timers s"
  "intersectingTimer (loadMore_finally s) = intersectingTimer s"
  "paginationObserver (loadMore_finally s) = paginationObserver s"
  "when_paginated_only (loadMore_finally s) = when_paginated_only s"
  by (simp_all add: loadMore_finally_def Let_def split: option.splits)

lemma clear_timer_fields [simp]:
  "in_flight (clear_intersectingTimer s) = in_flight s"
  "results (clear_intersectingTimer s) = results s"
  "isFetching (clear_intersectingTimer s) = isFetching s"
  "controller (clear_intersectingTimer s) = controller s"
  "pauseInfiniteScroll (clear_intersectingTimer s) = pauseInfiniteScroll s"
  "loadMoreButton (clear_intersectingTimer s) = loadMoreButton s"
  "pagination (clear_intersectingTimer s) = pagination s"
  "intersectingTimer (clear_intersectingTimer s) = intersectingTimer s"
  "paginationObserver (clear_intersectingTimer s) = paginationObserver s"
  "when_paginated_only (clear_intersectingTimer s) = when_paginated_only s"
  "cp_rejected (clear_intersectingTimer s) = cp_rejected s"
  by (simp_all add: clear_intersectingTimer_def clearInterval_def split: option.splits)

lemma disconnect_fields [simp]:
  "in_flight (disconnect_observer s) = in_flight s"
  "results (disconnect_observer s) = results s"
  "isFetching (disconnect_observer s) = isFetching s"
  "controller (disconnect_observer s) = controller s"
  "pauseInfiniteScroll (disconnect_observer s) = pauseInfiniteScroll s"
  "loadMoreButton (disconnect_observer s) = loadMoreButton s"
  "pagination (disconnect_observer s) = pagination s"
  "intersectingTimer (disconnect_observer s) = intersectingTimer s"
  "active_timers (disconnect_observer s) = active_timers s"
  "when_paginated_only (disconnect_observer s) = when_paginated_only s"
  "cp_rejected (disconnect_observer s) = cp_rejected s"
  "paginationObserver (disconnect_observer s) \<noteq> Some True"
  by (simp_all add: disconnect_observer_def split: option.splits)

lemma catch_fields [simp]:
  "in_flight (loadMore_catch e s) = in_flight s"
  "results (loadMore_catch e s) = results s"
  "isFetching (loadMore_catch e s) = False"
  "controller (loadMore_catch e s) = None"
  "pauseInfiniteScroll (loadMore_catch e s) = pauseInfiniteScroll s"
  "paginationObserver (loadMore_catch e s) = paginationObserver s"
  "when_paginated_only (loadMore_catch e s) = when_paginated_only s"
  by (simp_all add: loadMore_catch_def)

lemma drop_request_fields [simp]:
  "results (drop_request n s) = results s"
  "isFetching (drop_request n s) = isFetching s"
  "pauseInfiniteScroll (drop_request n s) = pauseInfiniteScroll s"
  "pagination (drop_request n s) = pagination s"
  "loadMoreButton (drop_request n s) = loadMoreButton s"
  "intersectingTimer (drop_request n s) = intersectingTimer s"
  "active_timers (drop_request n s) = active_timers s"
  "paginationObserver (drop_request n s) = paginationObserver s"
  by (simp_all add: drop_request_def)

lemma find_request_Some:
  "find_request n ph rs = Some r \<Longrightarrow> r \<in> set rs \<and> rq_id r = n \<and> rq_phase r = ph"
  by (auto simp: find_request_def find_Some_iff)

lemma drop_sole_request:
  assumes "length (in_flight s) \<le> 1" "r \<in> set (in_flight s)" "rq_id r = n"
  shows "in_flight (drop_request n s) = []"
proof -
  from assms(1,2) have "in_flight s = [r]" by (cases "in_flight s") auto
  with assms(3) show ?thesis by (simp add: drop_request_def)
qed

lemma single_flight_loadMore: "single_flight s \<Longrightarrow> single_flight (loadMore s)"
  by (auto simp: single_flight_def loadMore_def Let_def split: option.splits)

lemma single_flight_fetched: assumes "single_flight s" shows "single_flight (loadMore_fetched n out s)"
proof (cases "find_request n AwaitFetch (in_flight s)")
  case None then show ?thesis using assms by (simp add: loadMore_fetched_def)
next
  case (Some r)
  then have "in_flight (drop_request n s) = []"
    using assms drop_sole_request find_request_Some unfolding single_flight_def by blast
  then show ?thesis using assms Some
    by (auto simp: loadMore_fetched_def single_flight_def split: sum.splits)
qed

lemma append_fields [simp]:
  "in_flight (loadMore_append pg s) = in_flight s"
  "isFetching (loadMore_append pg s) = False"
  by (simp_all add: loadMore_append_def Let_def split: option.splits)

lemma single_flight_text: assumes "single_flight s" shows "single_flight (loadMore_text n out s)"
proof (cases "find_request n AwaitText (in_flight s)")
  case None then show ?thesis using assms by (simp add: loadMore_text_def)
next
  case (Some r)
  then have "in_flight (drop_request n s) = []"
    using assms drop_sole_request find_request_Some unfolding single_flight_def by blast
  then show ?thesis using assms Some
    by (auto simp: loadMore_text_def single_flight_def split: sum.splits)
qed

lemma single_flight_click: assumes "single_flight s" shows "single_flight (handleResultClick s)"
proof -
  have "in_flight (drop_request c s) = []" if "r \<in> set (in_flight s)" "rq_id r = c" for r c
    using assms drop_sole_request that unfolding single_flight_def by blast
  then show ?thesis using assms
    by (auto simp: handleResultClick_def single_flight_def split: option.splits)
qed

lemma single_flight_observe: "single_flight s \<Longrightarrow> single_flight (observe_entry s b)"
  using single_flight_loadMore[of s] by (auto simp: observe_entry_def single_flight_def Let_def)

lemma single_flight_observe_all: "single_flight s \<Longrightarrow> single_flight (foldl observe_entry s bs)"
  by (induction bs arbitrary: s) (auto simp: single_flight_observe)

lemma single_flight_reload: "single_flight s \<Longrightarrow> single_flight (reload q s)"
  by (auto simp: reload_def init_def destroy_def single_flight_def Let_def split: option.splits)

lemma single_flight_step: "single_flight s \<Longrightarrow> single_flight (cp_step s ev)"
  by (cases ev) (auto simp: single_flight_loadMore single_flight_fetched single_flight_text single_flight_click single_flight_observe_all single_flight_reload, auto simp: single_flight_def)

lemma single_flight_run: "single_flight s \<Longrightarrow> single_flight (cp_run s evs)"
  unfolding cp_run_def by (induction evs arbitrary: s) (auto simp: single_flight_step)


lemma nested_result_is_inserted_twice:
  "appended_results \<lparr>pg_results = [Result ''A'' [Result ''B'' []], Result ''C'' []], pg_pagination = None\<rparr>
   = [''A'', ''B'', ''B'', ''C'']"
  by code_simp

text \<open>
  C10. Where the component has neither a pagination element nor a load-more link (a single
  page of results), a call of \<open>loadMore\<close> that passes the guard logs the missing link, resets
  \<open>controller\<close> and \<open>isFetching\<close>, and then throws in its \<open>finally\<close> block: the promise of
  \<open>loadMore\<close> is rejected with a TypeError.
\<close>

theorem loadMore_rejects_without_pagination:
  "loadMore (s\<lparr>isFetching := False, pauseInfiniteScroll := Some ''false'', loadMoreButton := None, pagination := None\<rparr>)
   = (clear_intersectingTimer
       (s\<lparr>isFetching := False, pauseInfiniteScroll := Some ''false'', loadMoreButton := None, pagination := None,
          next_signal := Suc (next_signal s),
          cp_console := cp_console s @ [Error no_button_message]\<rparr>))
       \<lparr>controller := None, cp_rejected := cp_rejected s @ [TypeError]\<rparr>"
  by (simp add: loadMore_def loadMore_catch_def loadMore_finally_def clear_intersectingTimer_def clearInterval_def
      split: option.splits)

text \<open>
  C8, as stated, fails: the pause flag set to \<open>true\<close> while the request is in flight and
  set back to \<open>false\<close> before the response arrives does not discard the response; its
  results are appended.
\<close>

theorem loadMore_appends_after_pause_was_reset:
  "results (cp_run example_pagination
      [LoadMore, SetPause ''true'', SetPause ''false'',
       FetchSettles 0 (Inr ok_response), TextSettles 0 (Inr last_page)])
   = [''One'', ''Two'', ''Three'']"
  by code_simp

text \<open>
  C8, amended. Starting without a pending request, at most one request of \<open>loadMore\<close> is
  pending after any sequence of events; \<open>loadMore\<close> changes nothing when \<open>isFetching\<close> is set
  or the pause attribute is not \<open>false\<close>; and when the pause attribute is \<open>true\<close> at the moment
  the promise of \<open>fetch\<close> settles, no result is appended and the request is no longer pending.
\<close>

theorem loadMore_single_flight_and_pause:
  "(in_flight s0 = [] \<longrightarrow> length (in_flight (cp_run s0 evs)) \<le> 1)
   \<and> (isFetching s1 \<or> pauseInfiniteScroll s1 \<noteq> Some ''false'' \<longrightarrow> loadMore s1 = s1)
   \<and> (pauseInfiniteScroll s2 = Some ''true'' \<and> find_request n AwaitFetch (in_flight s2) = Some r \<longrightarrow>
        results (cp_step s2 (FetchSettles n outcome)) = results s2
        \<and> n \<notin> rq_id ` set (in_flight (cp_step s2 (FetchSettles n outcome))))"
proof (intro conjI impI)
  assume "in_flight s0 = []"
  then have "single_flight s0" by (simp add: single_flight_def)
  then have "single_flight (cp_run s0 evs)" by (rule single_flight_run)
  then show "length (in_flight (cp_run s0 evs)) \<le> 1" by (simp add: single_flight_def)
next
  assume "isFetching s1 \<or> pauseInfiniteScroll s1 \<noteq> Some ''false''"
  then show "loadMore s1 = s1" by (auto simp: loadMore_def)
next
  assume "pauseInfiniteScroll s2 = Some ''true'' \<and> find_request n AwaitFetch (in_flight s2) = Some r"
  then show "results (cp_step s2 (FetchSettles n outcome)) = results s2"
    by (auto simp: loadMore_fetched_def split: sum.splits)
next
  assume "pauseInfiniteScroll s2 = Some ''true'' \<and> find_request n AwaitFetch (in_flight s2) = Some r"
  then show "n \<notin> rq_id ` set (in_flight (cp_step s2 (FetchSettles n outcome)))"
    by (auto simp: loadMore_fetched_def drop_request_def split: sum.splits)
qed

theorem loadMore_single_flight_and_pause_witness:
  "in_flight example_pagination = []
   \<and> length (in_flight (cp_run example_pagination [LoadMore, LoadMore, Intersect [True, True], TimerTick 1])) \<le> 1
   \<and> pauseInfiniteScroll paused_in_flight \<noteq> Some ''false''
   \<and> loadMore paused_in_flight = paused_in_flight
   \<and> pauseInfiniteScroll paused_in_flight = Some ''true''
   \<and> find_request 0 AwaitFetch (in_flight paused_in_flight)
        = Some \<lparr>rq_id = 0, rq_url = ''/c?page=2'', rq_phase = AwaitFetch\<rparr>
   \<and> results (cp_step paused_in_flight (FetchSettles 0 (Inr ok_response))) = results paused_in_flight
   \<and> 0 \<notin> rq_id ` set (in_flight (cp_step paused_in_flight (FetchSettles 0 (Inr ok_response))))"
proof -
  have a: "in_flight example_pagination = []" by code_simp
  have b: "pauseInfiniteScroll paused_in_flight = Some ''true''" by code_simp
  have c: "find_request 0 AwaitFetch (in_flight paused_in_flight)
        = Some \<lparr>rq_id = 0, rq_url = ''/c?page=2'', rq_phase = AwaitFetch\<rparr>" by code_simp
  show ?thesis
    using a b c
      loadMore_single_flight_and_pause[of example_pagination "[LoadMore, LoadMore, Intersect [True, True], TimerTick 1]"
         paused_in_flight paused_in_flight 0
         "\<lparr>rq_id = 0, rq_url = ''/c?page=2'', rq_phase = AwaitFetch\<rparr>" "Inr ok_response"]
    by simp
qed

text \<open>
  C2, as stated, fails in its last part: after the last page was loaded, a further call of
  \<open>loadMore\<close> passes the guard, requests the address of the retained load-more link again,
  and the results of the response are appended once more.
\<close>

theorem loadMore_after_exhaustion_fetches_again:
  "in_flight (cp_run example_pagination
      [LoadMore, FetchSettles 0 (Inr ok_response), TextSettles 0 (Inr last_page), LoadMore])
   = [\<lparr>rq_id = 1, rq_url = ''/c?page=2'', rq_phase = AwaitFetch\<rparr>]
   \<and> results (cp_run example_pagination
      [LoadMore, FetchSettles 0 (Inr ok_response), TextSettles 0 (Inr last_page),
       LoadMore, FetchSettles 1 (Inr ok_response), TextSettles 1 (Inr last_page)])
   = [''One'', ''Two'', ''Three'', ''Three'']"
  by code_simp

text \<open>
  C2, amended. When the body of a pending request arrives, the component has results and a
  pagination element, and the pagination element of the response has no truthy
  \<open>data-is-more-results\<close>: the pagination element is removed from the document, no
  \<open>.js-when-paginated-only\<close> element is left, the timer held in \<open>intersectingTimer\<close> no longer
  runs while every other interval timer keeps running, the observer does not observe, the
  results of the inserted markup are appended, \<open>isFetching\<close> is cleared and the promise of
  \<open>loadMore\<close> is not rejected. Exhaustion is not terminal: where the component holds a
  load-more link and the pause attribute is \<open>false\<close>, a further call of \<open>loadMore\<close> requests
  the address of that link again.
\<close>

theorem loadMore_exhaustion_removes_pagination:
  assumes "find_request n AwaitText (in_flight s) = Some r"
    and "results s \<noteq> []"
    and "pagination s = Some p"
    and "pg_pagination pg = Some np"
    and "\<not> truthy (np_isMoreResults np)"
  shows "(\<exists>p'. pagination (cp_step s (TextSettles n (Inr pg))) = Some p' \<and> \<not> pag_attached p')
    \<and> when_paginated_only (cp_step s (TextSettles n (Inr pg))) = []
    \<and> (\<forall>t. intersectingTimer s = Some t \<longrightarrow> t \<notin> set (active_timers (cp_step s (TextSettles n (Inr pg)))))
    \<and> (\<forall>t \<in> set (active_timers s). intersectingTimer s \<noteq> Some t \<longrightarrow>
          t \<in> set (active_timers (cp_step s (TextSettles n (Inr pg)))))
    \<and> paginationObserver (cp_step s (TextSettles n (Inr pg))) \<noteq> Some True
    \<and> results (cp_step s (TextSettles n (Inr pg))) = results s @ appended_results pg
    \<and> \<not> isFetching (cp_step s (TextSettles n (Inr pg)))
    \<and> cp_rejected (cp_step s (TextSettles n (Inr pg))) = cp_rejected s
    \<and> (\<forall>b. loadMoreButton s = Some b \<and> pauseInfiniteScroll s = Some ''false'' \<longrightarrow>
          (\<exists>r' \<in> set (in_flight (cp_step (cp_step s (TextSettles n (Inr pg))) LoadMore)).
             rq_url r' = href b \<and> rq_phase r' = AwaitFetch))"
proof -
  let ?d = "drop_request n s"
  let ?e = "(disconnect_observer (clear_intersectingTimer
              (?d\<lparr>results := results s @ appended_results pg, pagination := Some (p\<lparr>pag_attached := False\<rparr>)\<rparr>)))
            \<lparr>when_paginated_only := []\<rparr>"
  have step: "cp_step s (TextSettles n (Inr pg)) = loadMore_finally ?e"
    using assms by (simp add: loadMore_text_def loadMore_append_def)
  have pag: "pagination ?e = Some (p\<lparr>pag_attached := False\<rparr>)" by simp
  have 1: "\<exists>p'. pagination (loadMore_finally ?e) = Some p' \<and> \<not> pag_attached p'"
    using pag by (simp add: loadMore_finally_def Let_def split: option.splits)
  have 3: "\<forall>t. intersectingTimer s = Some t \<longrightarrow> t \<notin> set (active_timers (loadMore_finally ?e))"
    by (simp add: clear_intersectingTimer_def clearInterval_def drop_request_def)
  have 4: "\<forall>t \<in> set (active_timers s). intersectingTimer s \<noteq> Some t \<longrightarrow>
             t \<in> set (active_timers (loadMore_finally ?e))"
    by (auto simp: clear_intersectingTimer_def clearInterval_def drop_request_def split: option.splits)
  have 7: "cp_rejected (loadMore_finally ?e) = cp_rejected s"
    using pag by (simp add: loadMore_finally_def Let_def drop_request_def split: option.splits)
  have 8: "\<exists>r' \<in> set (in_flight (cp_step (loadMore_finally ?e) LoadMore)).
             rq_url r' = href b \<and> rq_phase r' = AwaitFetch"
    if b: "loadMoreButton s = Some b" "pauseInfiniteScroll s = Some ''false''" for b
  proof -
    let ?f = "loadMore_finally ?e"
    have btn: "loadMoreButton ?f = Some (b\<lparr>btn_is_loading := False, btn_aria_disabled := False\<rparr>)"
      using b(1) pag by (simp add: loadMore_finally_def Let_def split: option.splits)
    have "pagination ?f \<noteq> None"
      using 1 by auto
    moreover have "\<not> isFetching ?f" "pauseInfiniteScroll ?f = Some ''false''"
      using b(2) by simp_all
    ultimately show ?thesis
      using btn by (auto simp: loadMore_def Let_def split: option.splits)
  qed
  show ?thesis unfolding step using 1 3 4 7 8 by simp
qed

theorem loadMore_exhaustion_removes_pagination_witness:
  "find_request 0 AwaitText (in_flight last_page_pending)
      = Some \<lparr>rq_id = 0, rq_url = ''/c?page=2'', rq_phase = AwaitText\<rparr>
   \<and> results last_page_pending \<noteq> []
   \<and> pagination last_page_pending
      = Some \<lparr>paginationStyle = Some ''modern'', isMoreResults = Some ''true'',
               pag_is_loading = False, pag_innerHTML = ''<a href=/c?page=2>'', pag_attached = True\<rparr>
   \<and> pg_pagination last_page = Some \<lparr>np_isMoreResults = None, np_innerHTML = [], np_button = None\<rparr>
   \<and> \<not> truthy (np_isMoreResults \<lparr>np_isMoreResults = None, np_innerHTML = [], np_button = None\<rparr>)
   \<and> intersectingTimer last_page_pending = Some 1
   \<and> 1 \<in> set (active_timers last_page_pending)
   \<and> paginationObserver last_page_pending = Some True
   \<and> 1 \<notin> set (active_timers (cp_step last_page_pending (TextSettles 0 (Inr last_page))))
   \<and> paginationObserver (cp_step last_page_pending (TextSettles 0 (Inr last_page))) \<noteq> Some True
   \<and> when_paginated_only (cp_step last_page_pending (TextSettles 0 (Inr last_page))) = []
   \<and> results (cp_step last_page_pending (TextSettles 0 (Inr last_page))) = results last_page_pending @ [''Three'']"
proof -
  have h1: "find_request 0 AwaitText (in_flight last_page_pending)
      = Some \<lparr>rq_id = 0, rq_url = ''/c?page=2'', rq_phase = AwaitText\<rparr>" by code_simp
  have h2: "results last_page_pending \<noteq> []" by code_simp
  have h3: "pagination last_page_pending
      = Some \<lparr>paginationStyle = Some ''modern'', isMoreResults = Some ''true'',
               pag_is_loading = False, pag_innerHTML = ''<a href=/c?page=2>'', pag_attached = True\<rparr>" by code_simp
  have h4: "pg_pagination last_page = Some \<lparr>np_isMoreResults = None, np_innerHTML = [], np_button = None\<rparr>"
    by code_simp
  have h5: "\<not> truthy (np_isMoreResults \<lparr>np_isMoreResults = None, np_innerHTML = [], np_button = None\<rparr>)"
    by simp
  have t: "intersectingTimer last_page_pending = Some 1" by code_simp
  have a: "1 \<in> set (active_timers last_page_pending)" by code_simp
  have ob: "paginationObserver last_page_pending = Some True" by code_simp
  have r: "appended_results last_page = [''Three'']" by code_simp
  note th = loadMore_exhaustion_removes_pagination[OF h1 h2 h3 h4 h5]
  from th t have c1: "1 \<notin> set (active_timers (cp_step last_page_pending (TextSettles 0 (Inr last_page))))"
    by blast
  from th have c2: "paginationObserver (cp_step last_page_pending (TextSettles 0 (Inr last_page))) \<noteq> Some True"
    by blast
  from th have c3: "when_paginated_only (cp_step last_page_pending (TextSettles 0 (Inr last_page))) = []"
    by blast
  from th have "results (cp_step last_page_pending (TextSettles 0 (Inr last_page)))
      = results last_page_pending @ appended_results last_page" by blast
  then have c4: "results (cp_step last_page_pending (TextSettles 0 (Inr last_page)))
      = results last_page_pending @ [''Three'']" unfolding r .
  show ?thesis by (intro conjI h1 h2 h3 h4 h5 t a ob c1 c2 c3 c4)
qed

section \<open>Properties of FacetFilters.applyFilters\<close>

lemma ff_finally_fields [simp]:
  "ff_in_flight (applyFilters_finally s) = ff_in_flight s"
  "ff_controller (applyFilters_finally s) = ff_controller s"
  "ff_next_signal (applyFilters_finally s) = ff_next_signal s"
  "ff_form (applyFilters_finally s) = ff_form s"
  "ff_results (applyFilters_finally s) = ff_results s"
  "ff_history (applyFilters_finally s) = ff_history s"
  "ff_console (applyFilters_finally s) = ff_console s"
  "ff_results_loading (applyFilters_finally s) = False"
  by (simp_all add: applyFilters_finally_def)

lemma ff_catch_fields [simp]:
  "ff_in_flight (applyFilters_catch e s) = ff_in_flight s"
  "ff_controller (applyFilters_catch e s) = ff_controller s"
  "ff_next_signal (applyFilters_catch e s) = ff_next_signal s"
  "ff_form (applyFilters_catch e s) = ff_form s"
  "ff_results (applyFilters_catch e s) = ff_results s"
  "ff_history (applyFilters_catch e s) = ff_history s"
  "ff_console (applyFilters_catch e s) = ff_console s @ [e]"
  "ff_results_loading (applyFilters_catch e s) = False"
  by (simp_all add: applyFilters_catch_def)

lemma ff_drop_fields [simp]:
  "ff_controller (ff_drop_request n s) = ff_controller s"
  "ff_next_signal (ff_drop_request n s) = ff_next_signal s"
  "ff_form (ff_drop_request n s) = ff_form s"
  "ff_results (ff_drop_request n s) = ff_results s"
  "ff_history (ff_drop_request n s) = ff_history s"
  "ff_console (ff_drop_request n s) = ff_console s"
  "ff_expanded (ff_drop_request n s) = ff_expanded s"
  "ff_in_flight (ff_drop_request n s) = filter (\<lambda>r. fr_id r \<noteq> n) (ff_in_flight s)"
  by (simp_all add: ff_drop_request_def)

lemma set_pause_fields [simp]:
  "ff_in_flight (set_pause v s) = ff_in_flight s"
  "ff_controller (set_pause v s) = ff_controller s"
  "ff_next_signal (set_pause v s) = ff_next_signal s"
  "ff_form (set_pause v s) = ff_form s"
  "ff_results (set_pause v s) = ff_results s"
  "ff_history (set_pause v s) = ff_history s"
  "ff_console (set_pause v s) = ff_console s"
  "ff_closeBtn (set_pause v s) = ff_closeBtn s"
  "ff_pathname (set_pause v s) = ff_pathname s"
  "ff_filterSectionId (set_pause v s) = ff_filterSectionId s"
  by (simp_all add: set_pause_def)

lemma updateURL_fields [simp]:
  "ff_in_flight (updateURL p s) = ff_in_flight s"
  "ff_controller (updateURL p s) = ff_controller s"
  "ff_next_signal (updateURL p s) = ff_next_signal s"
  "ff_form (updateURL p s) = ff_form s"
  "ff_results (updateURL p s) = ff_results s"
  by (simp_all add: updateURL_def)

lemma render_bookkeeping:
  "applyFilters_render r body s = Inr s' \<Longrightarrow>
     ff_in_flight s' = ff_in_flight s \<and> ff_controller s' = ff_controller s \<and> ff_next_signal s' = ff_next_signal s"
  "applyFilters_render r body s = Inl (e, s') \<Longrightarrow>
     ff_in_flight s' = ff_in_flight s \<and> ff_controller s' = ff_controller s \<and> ff_next_signal s' = ff_next_signal s"
  by (auto simp: applyFilters_render_def Let_def split: option.splits if_splits)

lemma render_history:
  "\<not> fr_updateUrl r \<Longrightarrow> applyFilters_render r body s = Inr s' \<Longrightarrow> ff_history s' = ff_history s"
  "applyFilters_render r body s = Inl (e, s') \<Longrightarrow> ff_history s' = ff_history s"
  by (auto simp: applyFilters_render_def Let_def split: option.splits if_splits)

lemma ff_find_request_Some:
  "ff_find_request n ph rs = Some r \<Longrightarrow> r \<in> set rs \<and> fr_id r = n \<and> fr_phase r = ph"
  by (auto simp: ff_find_request_def find_Some_iff)

lemma ff_find_request_None:
  "n \<notin> fr_id ` set rs \<Longrightarrow> ff_find_request n ph rs = None"
  by (auto simp: ff_find_request_def find_None_iff)

lemma latest_only_applyFilters: "latest_only s \<Longrightarrow> latest_only (applyFilters p u s)"
  by (auto simp: latest_only_def applyFilters_def Let_def split: option.splits)

lemma latest_only_fetched: "latest_only s \<Longrightarrow> latest_only (applyFilters_fetched n out s)"
  by (auto simp: latest_only_def applyFilters_fetched_def split: option.splits sum.splits)

lemma latest_only_text: assumes "latest_only s" shows "latest_only (applyFilters_text n out s)"
proof -
  have d: "latest_only (ff_drop_request n s)" using assms by (auto simp: latest_only_def)
  have "latest_only s'" if "applyFilters_render r body (ff_drop_request n s) = Inr s'" for r body s'
    using d render_bookkeeping(1)[OF that] by (simp add: latest_only_def)
  moreover have "latest_only s'" if "applyFilters_render r body (ff_drop_request n s) = Inl (e, s')" for r body s' e
    using d render_bookkeeping(2)[OF that] by (simp add: latest_only_def)
  moreover have "latest_only (applyFilters_catch e s)" if "latest_only s" for e s
    using that by (simp add: latest_only_def)
  moreover have "latest_only (applyFilters_finally s)" if "latest_only s" for s
    using that by (simp add: latest_only_def)
  ultimately show ?thesis using assms d
    by (auto simp: applyFilters_text_def split: option.splits sum.splits prod.splits)
qed

lemma latest_only_step: assumes "latest_only s" shows "latest_only (ff_step s ev)"
proof (cases ev)
  case (ApplyFilters p u)
  then show ?thesis using assms by (simp add: latest_only_applyFilters)
next
  case (FilterChange formData evt)
  have "latest_only (s\<lparr>ff_mobileSortByOptions := opts\<rparr>)" for opts
    using assms by (simp add: latest_only_def)
  then show ?thesis using assms FilterChange
    by (auto simp: handleFilterChange_event_def latest_only_applyFilters split: sum.splits)
next
  case (FiltersClick path href_params)
  have upd: "latest_only (s'\<lparr>ff_form := f\<rparr>) = latest_only s'"
    "latest_only (s'\<lparr>ff_form := f, ff_expanded := x\<rparr>) = latest_only s'"
    "latest_only (s'\<lparr>ff_form := f, ff_form_outer := a, ff_results := rs, ff_expanded := x\<rparr>) = latest_only s'"
    for s' f x a rs
    by (simp_all add: latest_only_def)
  have sm: "latest_only (show_more_click path s') = latest_only s'" for s'
    by (simp add: show_more_click_def upd split: option.splits closest.splits)
  show ?thesis using assms FiltersClick
    by (simp add: handleFiltersClick_def sm latest_only_applyFilters split: option.splits)
next
  case (PopState st)
  then show ?thesis using assms
    by (auto simp: handleHistoryChange_def latest_only_applyFilters split: hstate.splits)
next
  case (FacetsFetchSettles n out)
  then show ?thesis using assms by (simp add: latest_only_fetched)
next
  case (FacetsTextSettles n out)
  then show ?thesis using assms by (simp add: latest_only_text)
qed

lemma latest_only_run: "latest_only s \<Longrightarrow> latest_only (ff_run s evs)"
  unfolding ff_run_def by (induction evs arbitrary: s) (auto simp: latest_only_step)

lemma settle_stale_noop:
  assumes "latest_only s" "Suc n \<noteq> ff_next_signal s"
  shows "applyFilters_fetched n out s = s" "applyFilters_text n out' s = s"
proof -
  from assms have "n \<notin> fr_id ` set (ff_in_flight s)" by (auto simp: latest_only_def)
  then have "ff_find_request n ph (ff_in_flight s) = None" for ph by (rule ff_find_request_None)
  then show "applyFilters_fetched n out s = s" "applyFilters_text n out' s = s"
    by (simp_all add: applyFilters_fetched_def applyFilters_text_def)
qed

lemma fetched_keeps_dom:
  "ff_form (applyFilters_fetched n out s) = ff_form s"
  "ff_results (applyFilters_fetched n out s) = ff_results s"
  "ff_history (applyFilters_fetched n out s) = ff_history s"
  by (auto simp: applyFilters_fetched_def split: option.splits sum.splits)

lemma applyFilters_keeps_dom:
  "ff_form (applyFilters p u s) = ff_form s"
  "ff_results (applyFilters p u s) = ff_results s"
  "ff_history (applyFilters p u s) = ff_history s"
  by (auto simp: applyFilters_def Let_def split: option.splits)

lemma applyFilters_supersedes:
  assumes "latest_only s" "ff_closeBtn s = Some cb"
  shows "ff_in_flight (applyFilters p u s) =
           [\<lparr>fr_id = ff_next_signal s, fr_searchParams = p, fr_updateUrl = u,
             fr_url = ff_pathname s @ ''?'' @ p @
               (case ff_filterSectionId s of None \<Rightarrow> [] | Some sid \<Rightarrow> if sid = [] then [] else ''&section_id='' @ sid),
             fr_phase = AwaitFetch\<rparr>]"
proof -
  have "filter (\<lambda>r. fr_id r \<noteq> c) (ff_in_flight s) = []" if "ff_controller s = Some c" for c
    using assms(1) that by (auto simp: latest_only_def filter_empty_conv)
  moreover have "ff_in_flight s = []" if "ff_controller s = None"
    using assms(1) that by (cases "ff_in_flight s") (auto simp: latest_only_def)
  ultimately show ?thesis using assms(2)
    by (auto simp: applyFilters_def Let_def split: option.splits)
qed

text \<open>
  C1. Starting without a pending call, after any sequence of events: the settling of a
  \<open>fetch\<close> or of a body read that belongs to any but the most recently started request
  changes nothing at all; the settling of a \<open>fetch\<close> never changes the form, the results
  or the history; a call of \<open>applyFilters\<close> that reaches its \<open>fetch\<close> leaves its own request
  as the only pending one, the earlier one being aborted; and such a call, with the
  aborted call resuming in its \<open>catch\<close> block, changes neither the form nor the results nor
  the history.
\<close>

theorem applyFilters_only_latest_response_mutates:
  assumes "ff_in_flight s0 = []"
  shows "(Suc n \<noteq> ff_next_signal (ff_run s0 evs) \<longrightarrow>
            ff_step (ff_run s0 evs) (FacetsFetchSettles n out) = ff_run s0 evs
          \<and> ff_step (ff_run s0 evs) (FacetsTextSettles n out') = ff_run s0 evs)
       \<and> ff_form (ff_step (ff_run s0 evs) (FacetsFetchSettles m out)) = ff_form (ff_run s0 evs)
       \<and> ff_results (ff_step (ff_run s0 evs) (FacetsFetchSettles m out)) = ff_results (ff_run s0 evs)
       \<and> ff_history (ff_step (ff_run s0 evs) (FacetsFetchSettles m out)) = ff_history (ff_run s0 evs)
       \<and> (ff_closeBtn (ff_run s0 evs) \<noteq> None \<longrightarrow>
            map fr_id (ff_in_flight (ff_step (ff_run s0 evs) (ApplyFilters p u))) = [ff_next_signal (ff_run s0 evs)]
          \<and> ff_next_signal (ff_step (ff_run s0 evs) (ApplyFilters p u)) = Suc (ff_next_signal (ff_run s0 evs)))
       \<and> ff_form (ff_step (ff_run s0 evs) (ApplyFilters p u)) = ff_form (ff_run s0 evs)
       \<and> ff_results (ff_step (ff_run s0 evs) (ApplyFilters p u)) = ff_results (ff_run s0 evs)
       \<and> ff_history (ff_step (ff_run s0 evs) (ApplyFilters p u)) = ff_history (ff_run s0 evs)"
proof -
  from assms have "latest_only s0" by (simp add: latest_only_def)
  then have inv: "latest_only (ff_run s0 evs)" by (rule latest_only_run)
  have next_sig: "ff_next_signal (applyFilters p u s) = Suc (ff_next_signal s)" if "ff_closeBtn s = Some cb" for s cb
    using that by (auto simp: applyFilters_def Let_def split: option.splits)
  show ?thesis
    using settle_stale_noop[OF inv] applyFilters_supersedes[OF inv] next_sig
    by (auto simp: fetched_keeps_dom applyFilters_keeps_dom)
qed

theorem applyFilters_only_latest_response_mutates_witness:
  "ff_in_flight example_facets = []
   \<and> Suc 0 \<noteq> ff_next_signal (ff_run example_facets
        [ApplyFilters ''a=1'' True, FacetsFetchSettles 0 (Inr ok_response), ApplyFilters ''a=2'' True])
   \<and> ff_step (ff_run example_facets
        [ApplyFilters ''a=1'' True, FacetsFetchSettles 0 (Inr ok_response), ApplyFilters ''a=2'' True])
        (FacetsTextSettles 0 (Inr red_page))
     = ff_run example_facets
        [ApplyFilters ''a=1'' True, FacetsFetchSettles 0 (Inr ok_response), ApplyFilters ''a=2'' True]
   \<and> ff_closeBtn (ff_run example_facets
        [ApplyFilters ''a=1'' True, FacetsFetchSettles 0 (Inr ok_response), ApplyFilters ''a=2'' True]) \<noteq> None
   \<and> map fr_id (ff_in_flight (ff_step (ff_run example_facets
        [ApplyFilters ''a=1'' True, FacetsFetchSettles 0 (Inr ok_response), ApplyFilters ''a=2'' True])
        (ApplyFilters ''a=3'' True))) = [2]"
proof -
  let ?evs = "[ApplyFilters ''a=1'' True, FacetsFetchSettles 0 (Inr ok_response), ApplyFilters ''a=2'' True]"
  have h: "ff_in_flight example_facets = []" by code_simp
  have n: "ff_next_signal (ff_run example_facets ?evs) = 2" by code_simp
  have c: "ff_closeBtn (ff_run example_facets ?evs) \<noteq> None" by code_simp
  show ?thesis
    using h n c applyFilters_only_latest_response_mutates[OF h, of 0 ?evs "Inr ok_response" "Inr red_page" 0 "''a=3''" True]
    by simp
qed

lemma no_push_applyFilters: "no_push_pending s \<Longrightarrow> no_push_pending (applyFilters p False s)"
  by (auto simp: no_push_pending_def applyFilters_def Let_def list_all_iff split: option.splits)

lemma applyFilters_history [simp]: "ff_history (applyFilters p u s) = ff_history s"
  by (auto simp: applyFilters_def Let_def split: option.splits)

lemma no_push_fetched: "no_push_pending s \<Longrightarrow> no_push_pending (applyFilters_fetched n out s)"
  by (auto simp: no_push_pending_def applyFilters_fetched_def list_all_iff split: option.splits sum.splits)

lemma no_push_text:
  assumes "no_push_pending s"
  shows "no_push_pending (applyFilters_text n out s) \<and> ff_history (applyFilters_text n out s) = ff_history s"
proof (cases "ff_find_request n AwaitText (ff_in_flight s)")
  case None
  then show ?thesis using assms by (simp add: applyFilters_text_def)
next
  case (Some r)
  then have r: "\<not> fr_updateUrl r"
    using assms ff_find_request_Some[OF Some] by (auto simp: no_push_pending_def list_all_iff)
  have d: "no_push_pending (ff_drop_request n s)"
    using assms by (auto simp: no_push_pending_def list_all_iff)
  show ?thesis
  proof (cases out)
    case (Inl e)
    then show ?thesis using Some d by (simp add: applyFilters_text_def no_push_pending_def)
  next
    case (Inr body)
    show ?thesis
    proof (cases "applyFilters_render r body (ff_drop_request n s)")
      case (Inl es)
      obtain e s' where es: "es = (e, s')" by (cases es)
      from render_bookkeeping(2)[OF Inl[unfolded es]] render_history(2)[OF Inl[unfolded es]] d
      show ?thesis using Some Inr Inl es
        by (simp add: applyFilters_text_def no_push_pending_def)
    next
      case (Inr s')
      from render_bookkeeping(1)[OF Inr] render_history(1)[OF r Inr] d
      show ?thesis using Some \<open>out = Inr body\<close> Inr
        by (simp add: applyFilters_text_def no_push_pending_def)
    qed
  qed
qed

lemma history_event_step:
  assumes "no_push_pending s" "history_event e"
  shows "no_push_pending (ff_step s e) \<and> ff_history (ff_step s e) = ff_history s"
proof (cases e)
  case (PopState st)
  then show ?thesis using assms(1)
    by (auto simp: handleHistoryChange_def no_push_applyFilters split: hstate.splits)
next
  case (FacetsFetchSettles n out)
  then show ?thesis using assms(1) by (simp add: no_push_fetched fetched_keeps_dom)
next
  case (FacetsTextSettles n out)
  then show ?thesis using no_push_text[OF assms(1)] by simp
qed (use assms(2) in \<open>simp_all add: history_event_def\<close>)

lemma history_events_run:
  "no_push_pending s \<Longrightarrow> list_all history_event evs \<Longrightarrow> ff_history (ff_run s evs) = ff_history s"
  unfolding ff_run_def
proof (induction evs arbitrary: s)
  case Nil
  then show ?case by simp
next
  case (Cons e evs)
  then show ?case using history_event_step[of s e] by simp
qed

text \<open>
  C5. \<open>updateURL(p)\<close> adds exactly one history entry, with state \<open>{searchParams: p}\<close>; a
  \<open>popstate\<close> event with that state calls \<open>applyFilters(p, null, false)\<close>; and whatever
  history navigation and the network do afterwards, no further entry is added, provided
  no call that was asked to update the address is pending.
\<close>

theorem history_replay_never_pushes:
  assumes "no_push_pending s" and "list_all history_event evs"
  shows "ff_history (updateURL p s)
           = ff_history s @ [(HObj (Some p), ff_pathname s @ (if p = [] then [] else ''?'' @ p))]
       \<and> ff_step (updateURL p s) (PopState (HObj (Some p))) = applyFilters p False (updateURL p s)
       \<and> ff_history (ff_run (updateURL p s) (PopState (HObj (Some p)) # evs)) = ff_history (updateURL p s)"
proof -
  have np: "no_push_pending (updateURL p s)" using assms(1) by (simp add: no_push_pending_def)
  have "list_all history_event (PopState (HObj (Some p)) # evs)"
    using assms(2) by (simp add: history_event_def)
  from history_events_run[OF np this] show ?thesis
    by (simp add: updateURL_def handleHistoryChange_def)
qed

theorem history_replay_never_pushes_witness:
  "no_push_pending example_facets
   \<and> list_all history_event [FacetsFetchSettles 0 (Inr ok_response), FacetsTextSettles 0 (Inr red_page)]
   \<and> ff_history (updateURL ''a=1'' example_facets) = [(HObj (Some ''a=1''), ''/collections/x?a=1'')]
   \<and> ff_history (ff_run (updateURL ''a=1'' example_facets)
        [PopState (HObj (Some ''a=1'')), FacetsFetchSettles 0 (Inr ok_response), FacetsTextSettles 0 (Inr red_page)])
      = [(HObj (Some ''a=1''), ''/collections/x?a=1'')]"
proof -
  have a: "no_push_pending example_facets" by code_simp
  have b: "list_all history_event [FacetsFetchSettles 0 (Inr ok_response), FacetsTextSettles 0 (Inr red_page)]"
    by (simp add: history_event_def)
  have c: "ff_history example_facets = []" by code_simp
  have d: "ff_pathname example_facets = ''/collections/x''" by code_simp
  show ?thesis using a b history_replay_never_pushes[OF a b, of "''a=1''"] by (simp add: c d)
qed

text \<open>
  C7, as stated, fails: a response that is not ok is not reported at all, the console
  stays empty.
\<close>

theorem applyFilters_not_ok_logs_nothing:
  "ff_console (ff_run example_facets
      [ApplyFilters ''a=1'' True, FacetsFetchSettles 0 (Inr \<lparr>ok = False, status = 500\<rparr>)]) = []"
  by code_simp

lemma render_loading: "ff_results_loading (applyFilters_text n out s) = False"
  if "ff_find_request n AwaitText (ff_in_flight s) = Some r"
  using that by (auto simp: applyFilters_text_def split: sum.splits prod.splits)

text \<open>
  C7, amended. For a pending request: when \<open>fetch\<close> rejects, the form, the results and
  the history are unchanged, the error is the one new console entry, and the loading
  class of the results is cleared; when the response is not ok, the same holds with no
  console entry at all; and when the body of a request arrives, the loading class is
  cleared however the update ends.
\<close>

theorem applyFilters_failure_leaves_dom:
  assumes "ff_find_request n AwaitFetch (ff_in_flight s) = Some r"
  shows "ff_form (ff_step s (FacetsFetchSettles n (Inl e))) = ff_form s
       \<and> ff_results (ff_step s (FacetsFetchSettles n (Inl e))) = ff_results s
       \<and> ff_history (ff_step s (FacetsFetchSettles n (Inl e))) = ff_history s
       \<and> ff_console (ff_step s (FacetsFetchSettles n (Inl e))) = ff_console s @ [e]
       \<and> \<not> ff_results_loading (ff_step s (FacetsFetchSettles n (Inl e)))
       \<and> (\<not> ok resp \<longrightarrow>
            ff_form (ff_step s (FacetsFetchSettles n (Inr resp))) = ff_form s
          \<and> ff_results (ff_step s (FacetsFetchSettles n (Inr resp))) = ff_results s
          \<and> ff_history (ff_step s (FacetsFetchSettles n (Inr resp))) = ff_history s
          \<and> ff_console (ff_step s (FacetsFetchSettles n (Inr resp))) = ff_console s
          \<and> \<not> ff_results_loading (ff_step s (FacetsFetchSettles n (Inr resp))))
       \<and> (ff_find_request m AwaitText (ff_in_flight s2) = Some r2 \<longrightarrow>
            \<not> ff_results_loading (ff_step s2 (FacetsTextSettles m out)))"
  using assms by (auto simp: applyFilters_fetched_def render_loading)

theorem applyFilters_failure_leaves_dom_witness:
  "ff_find_request 0 AwaitFetch (ff_in_flight awaiting_response)
     = Some \<lparr>fr_id = 0, fr_searchParams = ''a=1'', fr_updateUrl = True,
             fr_url = ''/collections/x?a=1&section_id=main'', fr_phase = AwaitFetch\<rparr>
   \<and> ff_results_loading awaiting_response
   \<and> ff_form (ff_step awaiting_response (FacetsFetchSettles 0 (Inl NetworkError))) = ff_form awaiting_response
   \<and> ff_console (ff_step awaiting_response (FacetsFetchSettles 0 (Inl NetworkError))) = [NetworkError]
   \<and> \<not> ff_results_loading (ff_step awaiting_response (FacetsFetchSettles 0 (Inl NetworkError)))
   \<and> \<not> ok \<lparr>ok = False, status = 500\<rparr>
   \<and> ff_results (ff_step awaiting_response (FacetsFetchSettles 0 (Inr \<lparr>ok = False, status = 500\<rparr>)))
       = ff_results awaiting_response
   \<and> ff_console (ff_step awaiting_response (FacetsFetchSettles 0 (Inr \<lparr>ok = False, status = 500\<rparr>))) = []
   \<and> ff_find_request 0 AwaitText (ff_in_flight awaiting_body)
     = Some \<lparr>fr_id = 0, fr_searchParams = ''a=1'', fr_updateUrl = True,
             fr_url = ''/collections/x?a=1&section_id=main'', fr_phase = AwaitText\<rparr>
   \<and> \<not> ff_results_loading (ff_step awaiting_body (FacetsTextSettles 0 (Inr red_page)))"
proof -
  have a: "ff_find_request 0 AwaitFetch (ff_in_flight awaiting_response)
     = Some \<lparr>fr_id = 0, fr_searchParams = ''a=1'', fr_updateUrl = True,
             fr_url = ''/collections/x?a=1&section_id=main'', fr_phase = AwaitFetch\<rparr>" by code_simp
  have b: "ff_find_request 0 AwaitText (ff_in_flight awaiting_body)
     = Some \<lparr>fr_id = 0, fr_searchParams = ''a=1'', fr_updateUrl = True,
             fr_url = ''/collections/x?a=1&section_id=main'', fr_phase = AwaitText\<rparr>" by code_simp
  have c: "ff_console awaiting_response = []" by code_simp
  have l: "ff_results_loading awaiting_response" by code_simp
  show ?thesis
    using a b l applyFilters_failure_leaves_dom[OF a, of NetworkError "\<lparr>ok = False, status = 500\<rparr>" 0 awaiting_body _ "Inr red_page"]
    by (simp add: c)
qed

section \<open>Properties of the restored filter groups\<close>

lemma attrs_simps [simp]:
  "attrs (Text s) = []"
  "attrs (Elem t i c b ks) = (i, t, b) # attrs_of ks"
  by (simp_all add: attrs_def[abs_def] attrs_of_def map_concat comp_def)

lemma attrs_of_simps [simp]:
  "attrs_of [] = []"
  "attrs_of (k # ks) = attrs k @ attrs_of ks"
  by (simp_all add: attrs_of_def)

lemma attrs_of_elements: "attrs_of ks = map (\<lambda>e. (nid e, tag e, nopen e)) (elements_of ks)"
  by (simp add: attrs_of_def attrs_def[abs_def] elements_of_def map_concat comp_def)

lemma set_first_open_append:
  "set_first_open i v (xs @ ys) =
     (case set_first_open i v xs of
        Some xs' \<Rightarrow> Some (xs' @ ys)
      | None \<Rightarrow> map_option ((@) xs) (set_first_open i v ys))"
proof (induction xs)
  case Nil
  have "(@) [] = (\<lambda>zs::(string \<times> string \<times> bool) list. zs)" by (rule ext) simp
  then show ?case by (simp add: option.map_ident)
next
  case (Cons x xs)
  obtain j t b where x: "x = (j, t, b)" by (cases x)
  have e: "(@) ((j, t, b) # xs) = (\<lambda>zs. (j, t, b) # xs @ zs)" by (rule ext) simp
  show ?case
    using Cons by (cases "set_first_open i v xs") (simp_all add: x e option.map_comp comp_def)
qed

lemma set_open_flat:
  "map_option attrs (set_open_node i v n) = set_first_open i v (attrs n)"
  "map_option attrs_of (set_open_list i v ks) = set_first_open i v (attrs_of ks)"
proof (induction i v n and i v ks rule: set_open_node_set_open_list.induct)
  case (1 i v s)
  then show ?case by simp
next
  case (2 i v t j c b ks)
  have "map_option attrs (map_option (Elem t j c b) (set_open_list i v ks))
        = map_option ((#) (j, t, b)) (map_option attrs_of (set_open_list i v ks))"
    by (simp add: option.map_comp comp_def)
  with 2 show ?case by simp
next
  case (3 i v)
  then show ?case by simp
next
  case (4 i v k ks)
  show ?case
  proof (cases "set_open_node i v k")
    case None
    then have n: "set_first_open i v (attrs k) = None" using 4(1) by simp
    have "map_option attrs_of (map_option ((#) k) (set_open_list i v ks))
          = map_option ((@) (attrs k)) (map_option attrs_of (set_open_list i v ks))"
      by (simp add: option.map_comp comp_def)
    then show ?thesis using None n 4(2)[OF None] by (simp add: set_first_open_append)
  next
    case (Some k')
    then have "set_first_open i v (attrs k) = Some (attrs k')" using 4(1) by simp
    then show ?thesis using Some by (simp add: set_first_open_append)
  qed
qed

lemma set_first_open_ids:
  "set_first_open i v xs = Some ys \<Longrightarrow> map fst ys = map fst xs"
  by (induction xs arbitrary: ys) (auto split: if_splits)

lemma set_first_open_filter:
  "i \<noteq> g \<Longrightarrow> set_first_open i v xs = Some ys \<Longrightarrow>
     filter (\<lambda>x. fst x = g) ys = filter (\<lambda>x. fst x = g) xs"
proof (induction xs arbitrary: ys)
  case Nil
  then show ?case by simp
next
  case (Cons x xs)
  obtain j t b where x: "x = (j, t, b)" by (cases x)
  show ?case
  proof (cases "j = i")
    case True
    with Cons.prems x show ?thesis by auto
  next
    case False
    with Cons.prems x obtain zs where "set_first_open i v xs = Some zs" "ys = x # zs" by auto
    with Cons.IH[OF Cons.prems(1)] show ?thesis by simp
  qed
qed

lemma all_open_filter: "all_open g xs = all_open g (filter (\<lambda>x. fst x = g) xs)"
  by (auto simp: all_open_def)

lemma set_first_open_other:
  "i \<noteq> g \<Longrightarrow> set_first_open i v xs = Some ys \<Longrightarrow> all_open g ys = all_open g xs"
  using all_open_filter[of g xs] all_open_filter[of g ys] set_first_open_filter[of i g v xs ys] by simp

lemma set_first_open_sole:
  "set_first_open g True xs = Some ys \<Longrightarrow> length (filter (\<lambda>x. fst x = g) xs) \<le> 1 \<Longrightarrow> all_open g ys"
proof (induction xs arbitrary: ys)
  case Nil
  then show ?case by simp
next
  case (Cons x xs)
  obtain j t b where x: "x = (j, t, b)" by (cases x)
  show ?case
  proof (cases "j = g")
    case True
    with Cons.prems x have "filter (\<lambda>x. fst x = g) xs = []" by simp
    then have "\<forall>y \<in> set xs. fst y \<noteq> g" by (simp add: filter_empty_conv)
    with Cons.prems x True show ?thesis by (auto simp: all_open_def)
  next
    case False
    with Cons.prems x obtain zs where z: "set_first_open g True xs = Some zs" "ys = x # zs" by auto
    from Cons.prems False x have "length (filter (\<lambda>x. fst x = g) xs) \<le> 1" by simp
    from Cons.IH[OF z(1) this] False x z(2) show ?thesis by (simp add: all_open_def)
  qed
qed

lemma set_first_open_None: "set_first_open g v xs = None \<Longrightarrow> \<forall>x \<in> set xs. fst x \<noteq> g"
proof (induction xs)
  case Nil
  then show ?case by simp
next
  case (Cons x xs)
  obtain j t b where x: "x = (j, t, b)" by (cases x)
  from Cons.prems x have "j \<noteq> g" "set_first_open g v xs = None" by (auto split: if_splits)
  with Cons.IH x show ?case by simp
qed

lemma set_open_ids: "map fst (attrs_of (set_open i v T)) = map fst (attrs_of T)"
proof (cases "set_open_list i v T")
  case None
  then show ?thesis by (simp add: set_open_def)
next
  case (Some T')
  then have "set_first_open i v (attrs_of T) = Some (attrs_of T')"
    using set_open_flat(2)[of i v T] by simp
  then show ?thesis using Some by (simp add: set_open_def set_first_open_ids)
qed

lemma set_open_other: "i \<noteq> g \<Longrightarrow> all_open g (attrs_of (set_open i v T)) = all_open g (attrs_of T)"
proof (cases "set_open_list i v T")
  case None
  then show ?thesis by (simp add: set_open_def)
next
  case (Some T')
  assume "i \<noteq> g"
  moreover from Some have "set_first_open i v (attrs_of T) = Some (attrs_of T')"
    using set_open_flat(2)[of i v T] by simp
  ultimately show ?thesis using Some by (simp add: set_open_def set_first_open_other)
qed

lemma id_count_attrs: "id_count g (elements_of T) = length (filter (\<lambda>x. fst x = g) (attrs_of T))"
  by (simp add: id_count_def attrs_of_elements filter_map comp_def)

lemma filter_fst_map_fst:
  "map fst xs = map fst ys \<Longrightarrow> length (filter (\<lambda>x. fst x = g) xs) = length (filter (\<lambda>x. fst x = g) ys)"
proof -
  assume "map fst xs = map fst ys"
  then have "length (filter (\<lambda>j. j = g) (map fst xs)) = length (filter (\<lambda>j. j = g) (map fst ys))" by simp
  then show ?thesis by (simp add: filter_map comp_def)
qed

lemma set_open_id_count: "id_count g (elements_of (set_open i v T)) = id_count g (elements_of T)"
  unfolding id_count_attrs by (rule filter_fst_map_fst) (rule set_open_ids)

lemma set_open_sole:
  assumes "id_count g (elements_of T) \<le> 1" "g \<noteq> []"
  shows "all_open g (attrs_of (set_open g True T))"
proof (cases "set_open_list g True T")
  case None
  then have "set_first_open g True (attrs_of T) = None"
    using set_open_flat(2)[of g True T] by simp
  then have "\<forall>x \<in> set (attrs_of T). fst x \<noteq> g" by (rule set_first_open_None)
  then show ?thesis using None assms(2) by (simp add: set_open_def all_open_def)
next
  case (Some T')
  then have "set_first_open g True (attrs_of T) = Some (attrs_of T')"
    using set_open_flat(2)[of g True T] by simp
  from set_first_open_sole[OF this] assms show ?thesis
    using Some by (simp add: set_open_def id_count_attrs)
qed

lemma restore_open_other:
  "\<forall>H \<in> set L. nid H \<noteq> g \<Longrightarrow>
     all_open g (attrs_of (restore_open L T)) = all_open g (attrs_of T)
     \<and> id_count g (elements_of (restore_open L T)) = id_count g (elements_of T)"
  unfolding restore_open_def
  by (induction L arbitrary: T) (simp_all add: set_open_other set_open_id_count)

lemma sole_split:
  assumes "G \<in> set L" "nid G = g" "id_count g L \<le> 1"
  shows "\<exists>L1 L2. L = L1 @ G # L2 \<and> (\<forall>H \<in> set L1. nid H \<noteq> g) \<and> (\<forall>H \<in> set L2. nid H \<noteq> g)"
proof -
  from assms(1) obtain L1 L2 where L: "L = L1 @ G # L2" by (auto dest: split_list)
  with assms(2,3) have "length (filter (\<lambda>e. nid e = g) L1) + length (filter (\<lambda>e. nid e = g) L2) = 0"
    by (simp add: id_count_def)
  then have "\<forall>H \<in> set L1. nid H \<noteq> g" "\<forall>H \<in> set L2. nid H \<noteq> g"
    by (simp_all add: filter_empty_conv)
  with L show ?thesis by blast
qed

lemma restore_open_sole:
  assumes "G \<in> set L" "nid G = g" "g \<noteq> []" "nopen G" "id_count g L \<le> 1"
    and "id_count g (elements_of T) \<le> 1"
  shows "all_open g (attrs_of (restore_open L T))"
proof -
  from sole_split[OF assms(1,2,5)] obtain L1 L2 where
    L: "L = L1 @ G # L2" and L1: "\<forall>H \<in> set L1. nid H \<noteq> g" and L2: "\<forall>H \<in> set L2. nid H \<noteq> g"
    by blast
  let ?T1 = "restore_open L1 T"
  have c: "id_count g (elements_of ?T1) \<le> 1"
    using restore_open_other[OF L1, of T] assms(6) by simp
  have "restore_open L T = restore_open L2 (set_open g True ?T1)"
    using assms(2,4) by (simp add: L restore_open_def)
  then show ?thesis
    using restore_open_other[OF L2, of "set_open g True ?T1"] set_open_sole[OF c assms(3)] by simp
qed

lemma attrs_unhide_all: "attrs (unhide_all n) = attrs n"
proof (induction n)
  case (Text s)
  then show ?case by simp
next
  case (Elem t i c b ks)
  have "attrs_of (map unhide_all ks) = attrs_of ks"
    using Elem by (induction ks) simp_all
  then show ?case by simp
qed

lemma attrs_of_map_unhide_all: "attrs_of (map unhide_all ks) = attrs_of ks"
  by (induction ks) (simp_all add: attrs_unhide_all)

lemma attrs_remove_more:
  "remove_more ks = Some ks' \<Longrightarrow> set (attrs_of ks') \<subseteq> set (attrs_of ks)"
proof (induction ks arbitrary: ks' rule: remove_more.induct)
  case 1
  then show ?case by simp
next
  case (2 s ks)
  then show ?case by auto
next
  case (3 t i c b sub ks)
  show ?case
  proof (cases "''filter__more'' \<in> set c")
    case True
    with 3(3) show ?thesis by auto
  next
    case False
    show ?thesis
    proof (cases "remove_more sub")
      case None
      with False 3(3) obtain zs where z: "remove_more ks = Some zs" "ks' = Elem t i c b sub # zs" by auto
      from 3(2)[OF False None z(1)] z(2) show ?thesis by auto
    next
      case (Some sub')
      with False 3(3) have "ks' = Elem t i c b sub' # ks" by simp
      with 3(1)[OF False Some] show ?thesis by auto
    qed
  qed
qed

lemma attrs_show_all: "set (attrs_of (show_all ks)) \<subseteq> set (attrs_of ks)"
  using attrs_remove_more[of "map unhide_all ks"]
  by (auto simp: show_all_def Let_def attrs_of_map_unhide_all split: option.splits)

lemma attrs_of_mono:
  "(\<And>x. x \<in> set ks \<Longrightarrow> set (attrs (f x)) \<subseteq> set (attrs x)) \<Longrightarrow>
     set (attrs_of (map f ks)) \<subseteq> set (attrs_of ks)"
  by (induction ks) auto

lemma attrs_of_member: "x \<in> set ks \<Longrightarrow> set (attrs x) \<subseteq> set (attrs_of ks)"
  by (induction ks) auto

lemma attrs_expand_node: "set (attrs (expand_node X uf pd n)) \<subseteq> set (attrs n)"
proof (induction X uf pd n rule: expand_node.induct)
  case (1 X uf pd s)
  then show ?case by simp
next
  case (2 X uf pd t i c b ks)
  let ?ks1 = "if t = ''details'' \<and> pd \<and> i \<in> set X then show_all ks else ks"
  have "set (attrs_of (map (expand_node X (uf \<or> i = ''facets'') (t = ''details-disclosure'' \<and> uf)) ?ks1))
          \<subseteq> set (attrs_of ?ks1)"
    by (rule attrs_of_mono) (rule 2)
  also have "\<dots> \<subseteq> set (attrs_of ks)" using attrs_show_all[of ks] by simp
  finally show ?case by auto
qed

lemma attrs_restore_expanded: "set (attrs_of (restore_expanded X T)) \<subseteq> set (attrs_of T)"
  unfolding restore_expanded_def by (rule attrs_of_mono) (rule attrs_expand_node)

lemma all_open_subset: "set ys \<subseteq> set xs \<Longrightarrow> all_open g xs \<Longrightarrow> all_open g ys"
  by (auto simp: all_open_def)

lemma element_kids_attrs: "e \<in> set (elements n) \<Longrightarrow> set (attrs_of (kids e)) \<subseteq> set (attrs n)"
proof (induction n)
  case (Text s)
  then show ?case by simp
next
  case (Elem t i c b ks)
  show ?case
  proof (cases "e = Elem t i c b ks")
    case True
    then show ?thesis by auto
  next
    case False
    with Elem.prems obtain k where k: "k \<in> set ks" "e \<in> set (elements k)" by auto
    from Elem.IH[OF k] attrs_of_member[OF k(1)] show ?thesis by auto
  qed
qed

lemma element_kids_attrs_of:
  "e \<in> set (elements_of T) \<Longrightarrow> set (attrs_of (kids e)) \<subseteq> set (attrs_of T)"
proof -
  assume "e \<in> set (elements_of T)"
  then obtain k where k: "k \<in> set T" "e \<in> set (elements k)" by (auto simp: elements_of_def)
  from element_kids_attrs[OF k(2)] attrs_of_member[OF k(1)] show ?thesis by auto
qed

lemma getElementById_Some: "getElementById i T = Some e \<Longrightarrow> e \<in> set (elements_of T) \<and> nid e = i"
  by (auto simp: getElementById_def find_Some_iff split: if_splits)

lemma groups_in_elements: "G \<in> set (groups_in pd n) \<Longrightarrow> G \<in> set (elements n) \<and> tag G = ''details''"
  by (induction pd n rule: groups_in.induct) (auto split: if_splits)

lemma form_groups_attrs:
  "G \<in> set (form_groups ks) \<Longrightarrow> (nid G, ''details'', nopen G) \<in> set (attrs_of ks)"
proof -
  assume "G \<in> set (form_groups ks)"
  then obtain k where k: "k \<in> set ks" "G \<in> set (groups_in False k)" by (auto simp: form_groups_def)
  from groups_in_elements[OF k(2)] have "(nid G, ''details'', nopen G) \<in> set (attrs k)"
    by (auto simp: attrs_def)
  with attrs_of_member[OF k(1)] show ?thesis by auto
qed

lemma render_form:
  "applyFilters_render r body s = Inr s' \<Longrightarrow>
     \<exists>F. getElementById ''facets''
            (restore_expanded (ff_expanded s) (restore_open (form_groups (ff_form s)) (fragment body))) = Some F
          \<and> ff_form s' = kids F"
  by (auto simp: applyFilters_render_def Let_def set_pause_def updateURL_def split: option.splits if_splits)

lemma open_survives:
  assumes "applyFilters_render r body s = Inr s'"
    and "G \<in> set (form_groups (ff_form s))" "nid G = g" "g \<noteq> []" "nopen G"
    and "id_count g (form_groups (ff_form s)) \<le> 1"
    and "id_count g (elements_of (fragment body)) \<le> 1"
    and "G' \<in> set (form_groups (ff_form s'))" "nid G' = g"
  shows "nopen G'"
proof -
  let ?T1 = "restore_open (form_groups (ff_form s)) (fragment body)"
  let ?T2 = "restore_expanded (ff_expanded s) ?T1"
  from render_form[OF assms(1)] obtain F where
    F: "getElementById ''facets'' ?T2 = Some F" "ff_form s' = kids F" by blast
  have "all_open g (attrs_of ?T1)" using assms(2-7) by (rule restore_open_sole)
  then have "all_open g (attrs_of ?T2)" using attrs_restore_expanded all_open_subset by blast
  moreover have "set (attrs_of (kids F)) \<subseteq> set (attrs_of ?T2)"
    using getElementById_Some[OF F(1)] element_kids_attrs_of by blast
  ultimately have "all_open g (attrs_of (ff_form s'))" using F(2) all_open_subset by simp
  moreover have "(g, ''details'', nopen G') \<in> set (attrs_of (ff_form s'))"
    using form_groups_attrs[OF assms(8)] assms(9) by simp
  ultimately show ?thesis by (force simp: all_open_def)
qed

lemma elements_of_simps [simp]:
  "elements_of [] = []"
  "elements_of (k # ks) = elements k @ elements_of ks"
  by (simp_all add: elements_of_def)

lemma elements_Elem: "elements (Elem t i c b ks) = Elem t i c b ks # elements_of ks"
  by (simp add: elements_of_def)

lemma hidden_free_simps [simp]:
  "hidden_free []"
  "hidden_free (Text s # ks) \<longleftrightarrow> hidden_free ks"
  "hidden_free (Elem t i c b sub # ks) \<longleftrightarrow> ''js-hidden'' \<notin> set c \<and> hidden_free sub \<and> hidden_free ks"
  unfolding hidden_free_def elements_of_simps elements_Elem by auto

lemma hidden_free_Cons: "hidden_free (k # ks) \<longleftrightarrow> hidden_free [k] \<and> hidden_free ks"
  by (cases k) simp_all

lemma more_count_simps [simp]:
  "more_count [] = 0"
  "more_count (Text s # ks) = more_count ks"
  "more_count (Elem t i c b sub # ks) =
     (if ''filter__more'' \<in> set c then 1 else 0) + more_count sub + more_count ks"
  unfolding more_count_def elements_of_simps elements_Elem by simp_all

lemma more_count_Cons: "more_count (k # ks) = more_count [k] + more_count ks"
  by (cases k) simp_all

lemma hidden_free_all: "hidden_free ks \<longleftrightarrow> (\<forall>x \<in> set ks. hidden_free [x])"
proof (induction ks)
  case Nil
  then show ?case by simp
next
  case (Cons k ks)
  then show ?case by (subst hidden_free_Cons) simp
qed

lemma hidden_free_unhide_all: "hidden_free [unhide_all n]"
proof (induction n)
  case (Text s)
  then show ?case by simp
next
  case (Elem t i c b ks)
  then have "hidden_free (map unhide_all ks)" by (subst hidden_free_all) simp
  then show ?case by simp
qed

lemma hidden_free_remove_more:
  "remove_more ks = Some ks' \<Longrightarrow> hidden_free ks \<Longrightarrow> hidden_free ks'"
proof (induction ks arbitrary: ks' rule: remove_more.induct)
  case 1
  then show ?case by simp
next
  case (2 s ks)
  then show ?case by auto
next
  case (3 t i c b sub ks)
  from 3(4) have hf: "''js-hidden'' \<notin> set c" "hidden_free sub" "hidden_free ks" by simp_all
  show ?case
  proof (cases "''filter__more'' \<in> set c")
    case True
    with 3(3) hf show ?thesis by simp
  next
    case False
    show ?thesis
    proof (cases "remove_more sub")
      case None
      with False 3(3) obtain zs where z: "remove_more ks = Some zs" "ks' = Elem t i c b sub # zs" by auto
      from 3(2)[OF False None z(1) hf(3)] z(2) hf show ?thesis by simp
    next
      case (Some sub')
      with False 3(3) have "ks' = Elem t i c b sub' # ks" by simp
      with 3(1)[OF False Some hf(2)] hf show ?thesis by simp
    qed
  qed
qed

lemma hidden_free_show_all: "hidden_free (show_all ks)"
proof -
  have u: "hidden_free (map unhide_all ks)"
    by (subst hidden_free_all) (simp add: hidden_free_unhide_all)
  then show ?thesis
    using hidden_free_remove_more[of "map unhide_all ks"]
    by (auto simp: show_all_def Let_def split: option.splits)
qed

lemma hidden_free_expand_node: "hidden_free [n] \<Longrightarrow> hidden_free [expand_node X uf pd n]"
proof (induction X uf pd n rule: expand_node.induct)
  case (1 X uf pd s)
  then show ?case by simp
next
  case (2 X uf pd t i c b ks)
  let ?ks1 = "if t = ''details'' \<and> pd \<and> i \<in> set X then show_all ks else ks"
  from 2(2) have c: "''js-hidden'' \<notin> set c" and k: "hidden_free ks" by simp_all
  have "hidden_free ?ks1" using k hidden_free_show_all by simp
  then have "\<forall>x \<in> set ?ks1. hidden_free [x]" by (subst (asm) hidden_free_all)
  then have "hidden_free (map (expand_node X (uf \<or> i = ''facets'') (t = ''details-disclosure'' \<and> uf)) ?ks1)"
    using 2(1) by (subst hidden_free_all) simp
  with c show ?case by simp
qed

lemma hidden_free_map_expand:
  "hidden_free ks \<Longrightarrow> hidden_free (map (expand_node X uf pd) ks)"
  using hidden_free_expand_node by (subst hidden_free_all, subst (asm) hidden_free_all) simp

lemma expanded_group_hidden_free:
  "G' \<in> set (facets_groups_in uf pd (expand_node X uf pd n)) \<Longrightarrow> nid G' \<in> set X \<Longrightarrow> hidden_free (kids G')"
proof (induction X uf pd n arbitrary: G' rule: expand_node.induct)
  case (1 X uf pd s)
  then show ?case by simp
next
  case (2 X uf pd t i c b ks)
  let ?m = "t = ''details'' \<and> pd \<and> i \<in> set X"
  let ?ks1 = "if ?m then show_all ks else ks"
  let ?ks2 = "map (expand_node X (uf \<or> i = ''facets'') (t = ''details-disclosure'' \<and> uf)) ?ks1"
  from 2(2) consider
    (root) "t = ''details''" "pd" "G' = Elem t i c b ?ks2"
    | (deep) x where "x \<in> set ?ks1"
        "G' \<in> set (facets_groups_in (uf \<or> i = ''facets'') (t = ''details-disclosure'' \<and> uf)
                  (expand_node X (uf \<or> i = ''facets'') (t = ''details-disclosure'' \<and> uf) x))"
    by (auto split: if_splits)
  then show ?case
  proof cases
    case root
    with 2(3) have "?m" by simp
    then have "hidden_free ?ks1" using hidden_free_show_all by simp
    then have "hidden_free ?ks2" by (rule hidden_free_map_expand)
    with root show ?thesis by simp
  next
    case deep
    from 2(1)[OF deep(1) deep(2) 2(3)] show ?thesis .
  qed
qed

lemma facets_groups_in_True: "facets_groups_in True pd n = groups_in pd n"
  by (induction pd n rule: groups_in.induct) (simp_all cong: map_cong)

lemma groups_in_False: "set (groups_in False n) \<subseteq> set (groups_in pd n)"
  by (cases n) auto

lemma facets_content_groups:
  "F \<in> set (elements n) \<Longrightarrow> nid F = ''facets'' \<Longrightarrow>
     set (form_groups (kids F)) \<subseteq> set (facets_groups_in uf pd n)"
proof (induction n arbitrary: uf pd)
  case (Text s)
  then show ?case by simp
next
  case (Elem t i c b ks)
  show ?case
  proof (cases "F = Elem t i c b ks")
    case True
    with Elem.prems have i: "i = ''facets''" by simp
    have "set (form_groups ks) \<subseteq> set (concat (map (groups_in (t = ''details-disclosure'' \<and> uf)) ks))"
      using groups_in_False by (fastforce simp: form_groups_def)
    then show ?thesis using True i by (auto simp: facets_groups_in_True)
  next
    case False
    with Elem.prems obtain k where k: "k \<in> set ks" "F \<in> set (elements k)" by auto
    from Elem.IH[OF k Elem.prems(2)] k(1) show ?thesis by fastforce
  qed
qed

lemma facets_content_groups_of:
  assumes "getElementById ''facets'' T = Some F"
  shows "set (form_groups (kids F)) \<subseteq> set (facets_groups T)"
proof -
  from getElementById_Some[OF assms] obtain k where
    k: "k \<in> set T" "F \<in> set (elements k)" and i: "nid F = ''facets''"
    by (auto simp: elements_of_def)
  from facets_content_groups[OF k(2) i] k(1) show ?thesis by (fastforce simp: facets_groups_def)
qed

lemma hidden_items_shown:
  assumes "applyFilters_render r body s = Inr s'"
    and "G' \<in> set (form_groups (ff_form s'))" "nid G' \<in> set (ff_expanded s)"
  shows "hidden_free (kids G')"
proof -
  let ?T1 = "restore_open (form_groups (ff_form s)) (fragment body)"
  let ?T2 = "restore_expanded (ff_expanded s) ?T1"
  from render_form[OF assms(1)] obtain F where
    F: "getElementById ''facets'' ?T2 = Some F" "ff_form s' = kids F" by blast
  from facets_content_groups_of[OF F(1)] assms(2) F(2) have "G' \<in> set (facets_groups ?T2)" by auto
  then obtain k where "k \<in> set ?T1"
    "G' \<in> set (facets_groups_in False False (expand_node (ff_expanded s) False False k))"
    by (auto simp: facets_groups_def restore_expanded_def)
  from expanded_group_hidden_free[OF this(2) assms(3)] show ?thesis .
qed

lemma more_count_append: "more_count (xs @ ys) = more_count xs + more_count ys"
  by (simp add: more_count_def elements_of_def)

lemma more_count_map_le:
  "(\<And>x. x \<in> set ks \<Longrightarrow> more_count [f x] \<le> more_count [x]) \<Longrightarrow> more_count (map f ks) \<le> more_count ks"
proof (induction ks)
  case Nil
  then show ?case by simp
next
  case (Cons k ks)
  then have "more_count [f k] \<le> more_count [k]" "more_count (map f ks) \<le> more_count ks" by simp_all
  then show ?case using more_count_Cons[of "f k" "map f ks"] more_count_Cons[of k ks] by simp
qed

lemma more_count_map_eq:
  "(\<And>x. x \<in> set ks \<Longrightarrow> more_count [f x] = more_count [x]) \<Longrightarrow> more_count (map f ks) = more_count ks"
proof (induction ks)
  case Nil
  then show ?case by simp
next
  case (Cons k ks)
  then have "more_count [f k] = more_count [k]" "more_count (map f ks) = more_count ks" by simp_all
  then show ?case using more_count_Cons[of "f k" "map f ks"] more_count_Cons[of k ks] by simp
qed

lemma more_count_unhide_all: "more_count [unhide_all n] = more_count [n]"
proof (induction n)
  case (Text s)
  then show ?case by simp
next
  case (Elem t i c b ks)
  then have "more_count (map unhide_all ks) = more_count ks" by (intro more_count_map_eq) simp
  then show ?case by simp
qed

lemma more_count_map_unhide_all: "more_count (map unhide_all ks) = more_count ks"
  by (intro more_count_map_eq) (simp add: more_count_unhide_all)

lemma more_count_shape: "more_count [shape n] = more_count [n]"
proof (induction n)
  case (Text s)
  then show ?case by simp
next
  case (Elem t i c b ks)
  then have "more_count (map shape ks) = more_count ks" by (intro more_count_map_eq) simp
  then show ?case by simp
qed

lemma more_count_map_shape: "more_count (map shape ks) = more_count ks"
  by (intro more_count_map_eq) (simp add: more_count_shape)

lemma more_count_remove_more:
  "remove_more ks = Some ks' \<Longrightarrow> Suc (more_count ks') \<le> more_count ks"
proof (induction ks arbitrary: ks' rule: remove_more.induct)
  case 1
  then show ?case by simp
next
  case (2 s ks)
  then show ?case by auto
next
  case (3 t i c b sub ks)
  show ?case
  proof (cases "''filter__more'' \<in> set c")
    case True
    with 3(3) show ?thesis by auto
  next
    case False
    show ?thesis
    proof (cases "remove_more sub")
      case None
      with False 3(3) obtain zs where z: "remove_more ks = Some zs" "ks' = Elem t i c b sub # zs" by auto
      from 3(2)[OF False None z(1)] z(2) show ?thesis by simp
    next
      case (Some sub')
      with False 3(3) have "ks' = Elem t i c b sub' # ks" by simp
      with 3(1)[OF False Some] show ?thesis by simp
    qed
  qed
qed

lemma more_count_remove_more_None: "remove_more ks = None \<Longrightarrow> more_count ks = 0"
  by (induction ks rule: remove_more.induct) (auto split: if_splits option.splits)

lemma more_count_show_all: "more_count (show_all ks) \<le> more_count ks - 1"
proof (cases "remove_more (map unhide_all ks)")
  case None
  from more_count_remove_more_None[OF this] show ?thesis
    using None by (simp add: show_all_def more_count_map_unhide_all)
next
  case (Some ks')
  from more_count_remove_more[OF this] show ?thesis
    using Some by (simp add: show_all_def more_count_map_unhide_all)
qed

lemma more_count_show_all_le: "more_count (show_all ks) \<le> more_count ks"
  using more_count_show_all[of ks] by arith

lemma more_count_expand_node: "more_count [expand_node X uf pd n] \<le> more_count [n]"
proof (induction X uf pd n rule: expand_node.induct)
  case (1 X uf pd s)
  then show ?case by simp
next
  case (2 X uf pd t i c b ks)
  let ?ks1 = "if t = ''details'' \<and> pd \<and> i \<in> set X then show_all ks else ks"
  have "more_count (map (expand_node X (uf \<or> i = ''facets'') (t = ''details-disclosure'' \<and> uf)) ?ks1)
          \<le> more_count ?ks1"
    by (rule more_count_map_le) (rule 2)
  also have "\<dots> \<le> more_count ks" using more_count_show_all_le[of ks] by simp
  finally show ?case by simp
qed

lemma more_count_map_expand: "more_count (map (expand_node X uf pd) ks) \<le> more_count ks"
  by (rule more_count_map_le) (rule more_count_expand_node)

lemma covers_refl: "covers G G"
  by (simp add: covers_def)

lemma covers_trans: "covers A B \<Longrightarrow> covers B C \<Longrightarrow> covers A C"
  by (auto simp: covers_def)

lemma covers_unhide_all:
  "G1 \<in> set (facets_groups_in uf pd (unhide_all n)) \<Longrightarrow> \<exists>G \<in> set (facets_groups_in uf pd n). covers G G1"
proof (induction n arbitrary: uf pd)
  case (Text s)
  then show ?case by simp
next
  case (Elem t i c b ks)
  from Elem.prems consider
    (root) "t = ''details''" "pd" "G1 = Elem t i (removeAll ''js-hidden'' c) b (map unhide_all ks)"
    | (deep) k where "k \<in> set ks"
        "G1 \<in> set (facets_groups_in (uf \<or> i = ''facets'') (t = ''details-disclosure'' \<and> uf) (unhide_all k))"
    by (auto split: if_splits)
  then show ?case
  proof cases
    case root
    then have "covers (Elem t i c b ks) G1" by (simp add: covers_def more_count_map_unhide_all)
    with root show ?thesis by auto
  next
    case deep
    from Elem.IH[OF deep] deep(1) show ?thesis by auto
  qed
qed

lemma covers_remove_more:
  "remove_more ks = Some ks' \<Longrightarrow> G1 \<in> set (concat (map (facets_groups_in uf pd) ks')) \<Longrightarrow>
     \<exists>G \<in> set (concat (map (facets_groups_in uf pd) ks)). covers G G1"
proof (induction ks arbitrary: ks' uf pd rule: remove_more.induct)
  case 1
  then show ?case by simp
next
  case (2 s ks)
  from 2(2) obtain zs where z: "remove_more ks = Some zs" "ks' = Text s # zs" by auto
  with 2(3) have "G1 \<in> set (concat (map (facets_groups_in uf pd) zs))" by simp
  from 2(1)[OF z(1) this] show ?case by simp
next
  case (3 t i c b sub ks)
  show ?case
  proof (cases "''filter__more'' \<in> set c")
    case True
    with 3(3) have "ks' = ks" by simp
    with 3(4) show ?thesis using covers_refl by auto
  next
    case False
    show ?thesis
    proof (cases "remove_more sub")
      case None
      with False 3(3) obtain zs where z: "remove_more ks = Some zs" "ks' = Elem t i c b sub # zs" by auto
      from 3(4) z(2) consider
        (head) "G1 \<in> set (facets_groups_in uf pd (Elem t i c b sub))"
        | (tail) "G1 \<in> set (concat (map (facets_groups_in uf pd) zs))" by auto
      then show ?thesis
      proof cases
        case head
        then show ?thesis using covers_refl by auto
      next
        case tail
        from 3(2)[OF False None z(1) tail] show ?thesis by auto
      qed
    next
      case (Some sub')
      with False 3(3) have k: "ks' = Elem t i c b sub' # ks" by simp
      from 3(4) k consider
        (root) "t = ''details''" "pd" "G1 = Elem t i c b sub'"
        | (deep) "G1 \<in> set (concat (map (facets_groups_in (uf \<or> i = ''facets'') (t = ''details-disclosure'' \<and> uf)) sub'))"
        | (tail) "G1 \<in> set (concat (map (facets_groups_in uf pd) ks))"
        by (auto split: if_splits)
      then show ?thesis
      proof cases
        case root
        have "covers (Elem t i c b sub) G1"
          using more_count_remove_more[OF Some] root by (simp add: covers_def)
        with root show ?thesis by auto
      next
        case deep
        from 3(1)[OF False Some deep] show ?thesis by auto
      next
        case tail
        then show ?thesis using covers_refl by auto
      qed
    qed
  qed
qed

lemma covers_show_all:
  assumes "G1 \<in> set (concat (map (facets_groups_in uf pd) (show_all ks)))"
  shows "\<exists>G \<in> set (concat (map (facets_groups_in uf pd) ks)). covers G G1"
proof -
  have u: "\<exists>G \<in> set (concat (map (facets_groups_in uf pd) ks)). covers G G2"
    if "G2 \<in> set (concat (map (facets_groups_in uf pd) (map unhide_all ks)))" for G2
    using that covers_unhide_all by fastforce
  show ?thesis
  proof (cases "remove_more (map unhide_all ks)")
    case None
    with assms u show ?thesis by (simp add: show_all_def)
  next
    case (Some ks')
    with assms have "G1 \<in> set (concat (map (facets_groups_in uf pd) ks'))" by (simp add: show_all_def)
    from covers_remove_more[OF Some this] obtain G2 where
      "G2 \<in> set (concat (map (facets_groups_in uf pd) (map unhide_all ks)))" "covers G2 G1" by blast
    with u covers_trans show ?thesis by blast
  qed
qed

lemma expanded_group_loses_more:
  "G' \<in> set (facets_groups_in uf pd (expand_node X uf pd n)) \<Longrightarrow>
     \<exists>G \<in> set (facets_groups_in uf pd n).
        covers G G' \<and> (nid G' \<in> set X \<longrightarrow> more_count (kids G') \<le> more_count (kids G) - 1)"
proof (induction X uf pd n arbitrary: G' rule: expand_node.induct)
  case (1 X uf pd s)
  then show ?case by simp
next
  case (2 X uf pd t i c b ks)
  let ?m = "t = ''details'' \<and> pd \<and> i \<in> set X"
  let ?ks1 = "if ?m then show_all ks else ks"
  let ?uf = "uf \<or> i = ''facets''" and ?pd = "t = ''details-disclosure'' \<and> uf"
  let ?ks2 = "map (expand_node X ?uf ?pd) ?ks1"
  from 2(2) consider
    (root) "t = ''details''" "pd" "G' = Elem t i c b ?ks2"
    | (deep) x where "x \<in> set ?ks1" "G' \<in> set (facets_groups_in ?uf ?pd (expand_node X ?uf ?pd x))"
    by (auto split: if_splits)
  then show ?case
  proof cases
    case root
    have le: "more_count ?ks2 \<le> more_count ?ks1" by (rule more_count_map_expand)
    have "more_count ?ks1 \<le> more_count ks" using more_count_show_all_le[of ks] by simp
    moreover have "more_count ?ks1 \<le> more_count ks - 1" if "i \<in> set X"
      using that root more_count_show_all[of ks] by simp
    ultimately have "covers (Elem t i c b ks) G' \<and>
        (nid G' \<in> set X \<longrightarrow> more_count (kids G') \<le> more_count (kids (Elem t i c b ks)) - 1)"
      using le root(3) by (auto simp: covers_def)
    moreover have "Elem t i c b ks \<in> set (facets_groups_in uf pd (Elem t i c b ks))"
      using root by simp
    ultimately show ?thesis by blast
  next
    case deep
    from 2(1)[OF deep] obtain G1 where
      G1: "G1 \<in> set (facets_groups_in ?uf ?pd x)" "covers G1 G'"
        "nid G' \<in> set X \<longrightarrow> more_count (kids G') \<le> more_count (kids G1) - 1"
      by blast
    from G1(1) deep(1) have "G1 \<in> set (concat (map (facets_groups_in ?uf ?pd) ?ks1))" by auto
    then have "\<exists>G \<in> set (concat (map (facets_groups_in ?uf ?pd) ks)). covers G G1"
      using covers_show_all[of G1 ?uf ?pd ks] covers_refl by (auto split: if_splits)
    then obtain G where G: "G \<in> set (concat (map (facets_groups_in ?uf ?pd) ks))" "covers G G1" by blast
    have "covers G G'" using G(2) G1(2) by (rule covers_trans)
    moreover have "nid G' \<in> set X \<longrightarrow> more_count (kids G') \<le> more_count (kids G) - 1"
      using G1(3) G(2) by (auto simp: covers_def)
    moreover have "G \<in> set (facets_groups_in uf pd (Elem t i c b ks))" using G(1) by simp
    ultimately show ?thesis by blast
  qed
qed

lemma shape_set_open:
  "set_open_node i v n = Some n' \<Longrightarrow> shape n' = shape n"
  "set_open_list i v ks = Some ks' \<Longrightarrow> map shape ks' = map shape ks"
proof (induction i v n and i v ks arbitrary: n' and ks' rule: set_open_node_set_open_list.induct)
  case (1 i v s)
  then show ?case by simp
next
  case (2 i v t j c b ks)
  then show ?case by (auto split: if_splits)
next
  case (3 i v)
  then show ?case by simp
next
  case (4 i v k ks)
  then show ?case by (auto split: option.splits)
qed

lemma shape_restore_open: "map shape (restore_open L T) = map shape T"
proof -
  have s: "map shape (set_open i v T) = map shape T" for i v T
    using shape_set_open(2)[of i v T] by (auto simp: set_open_def split: option.splits)
  show ?thesis unfolding restore_open_def by (induction L arbitrary: T) (simp_all add: s)
qed

lemma facets_groups_in_shape:
  "facets_groups_in uf pd (shape n) = map shape (facets_groups_in uf pd n)"
  by (induction uf pd n rule: facets_groups_in.induct) (simp_all add: map_concat comp_def cong: map_cong)

lemma facets_groups_shape: "facets_groups (map shape T) = map shape (facets_groups T)"
  by (simp add: facets_groups_def map_concat comp_def facets_groups_in_shape)

lemma facets_groups_in_Elem: "G \<in> set (facets_groups_in uf pd n) \<Longrightarrow> \<exists>t i c b ks. G = Elem t i c b ks"
  by (induction uf pd n rule: facets_groups_in.induct) (auto split: if_splits)

lemma shape_covers:
  assumes "shape G = shape G1" "G = Elem t i c b ks" "G1 = Elem t1 i1 c1 b1 ks1"
  shows "covers G G1"
proof -
  from assms have "i = i1" "map shape ks = map shape ks1" by simp_all
  then have "more_count ks = more_count ks1"
    using more_count_map_shape[of ks] more_count_map_shape[of ks1] by simp
  with \<open>i = i1\<close> assms(2,3) show ?thesis by (simp add: covers_def)
qed

lemma covers_restore_open:
  assumes "G1 \<in> set (facets_groups (restore_open L T))"
  shows "\<exists>G \<in> set (facets_groups T). covers G G1"
proof -
  from assms have "shape G1 \<in> set (facets_groups (map shape (restore_open L T)))"
    by (simp add: facets_groups_shape)
  then have "shape G1 \<in> set (map shape (facets_groups T))"
    by (simp add: shape_restore_open facets_groups_shape)
  then obtain G where G: "G \<in> set (facets_groups T)" "shape G = shape G1" by auto
  from G(1) assms obtain t i c b ks t1 i1 c1 b1 ks1 where
    "G = Elem t i c b ks" "G1 = Elem t1 i1 c1 b1 ks1"
    unfolding facets_groups_def using facets_groups_in_Elem by fastforce
  from shape_covers[OF G(2) this] G(1) show ?thesis by blast
qed

lemma show_more_removed:
  assumes "applyFilters_render r body s = Inr s'"
    and "G' \<in> set (form_groups (ff_form s'))" "nid G' \<in> set (ff_expanded s)"
  shows "\<exists>G \<in> set (facets_groups (fragment body)).
           nid G = nid G' \<and> more_count (kids G') \<le> more_count (kids G) - 1"
proof -
  let ?T1 = "restore_open (form_groups (ff_form s)) (fragment body)"
  let ?T2 = "restore_expanded (ff_expanded s) ?T1"
  from render_form[OF assms(1)] obtain F where
    F: "getElementById ''facets'' ?T2 = Some F" "ff_form s' = kids F" by blast
  from facets_content_groups_of[OF F(1)] assms(2) F(2) have "G' \<in> set (facets_groups ?T2)" by auto
  then obtain k where k: "k \<in> set ?T1"
    "G' \<in> set (facets_groups_in False False (expand_node (ff_expanded s) False False k))"
    by (auto simp: facets_groups_def restore_expanded_def)
  from expanded_group_loses_more[OF k(2)] assms(3) obtain G1 where
    G1: "G1 \<in> set (facets_groups_in False False k)" "covers G1 G'"
      "more_count (kids G') \<le> more_count (kids G1) - 1" by blast
  from G1(1) k(1) have "G1 \<in> set (facets_groups ?T1)" by (auto simp: facets_groups_def)
  from covers_restore_open[OF this] obtain G where
    G: "G \<in> set (facets_groups (fragment body))" "covers G G1" by blast
  have "nid G = nid G'" using G(2) G1(2) by (simp add: covers_def)
  moreover have "more_count (kids G') \<le> more_count (kids G) - 1"
    using G1(3) G(2) by (auto simp: covers_def)
  ultimately show ?thesis using G(1) by blast
qed

lemma applyFilters_form_expanded [simp]:
  "ff_form (applyFilters p u s) = ff_form s" "ff_expanded (applyFilters p u s) = ff_expanded s"
  "ff_form_outer (applyFilters p u s) = ff_form_outer s" "ff_form_cls (applyFilters p u s) = ff_form_cls s"
  by (auto simp: applyFilters_def Let_def applyFilters_catch_def applyFilters_finally_def set_pause_def
      ff_drop_request_def split: option.splits)

lemma show_more_click_expanded:
  assumes "has_class ''js-show-more'' (node_at path (ff_form s))" and "closest_id path s = Some g"
  shows "g \<in> set (ff_expanded (show_more_click path s))"
proof -
  from assms(2) consider
    (outer) e where "closest_filter path s = Some (Outside e)" "oe_id e = g"
    | (inner) fp filterEl where "closest_filter path s = Some (Inside fp)"
        "node_at fp (ff_form s) = Some filterEl" "nid filterEl = g"
    by (auto simp: closest_id_def split: option.splits closest.splits)
  then show ?thesis
  proof cases
    case outer
    with assms(1) show ?thesis by (simp add: show_more_click_def)
  next
    case inner
    with assms(1) show ?thesis by (simp add: show_more_click_def)
  qed
qed

lemma closest_filter_applyFilters: "closest_filter path (applyFilters p u s) = closest_filter path s"
  by (simp add: closest_filter_def form_el_def split: option.splits)

lemma show_more_click_records:
  assumes "has_class ''js-show-more'' (node_at path (ff_form s))"
    and "closest_id path s = Some g"
    and "has_class ''js-clear-filter'' (node_at path (ff_form s)) \<longrightarrow> href_params \<noteq> None"
  shows "g \<in> set (ff_expanded (handleFiltersClick path href_params s))"
proof (cases "has_class ''js-clear-filter'' (node_at path (ff_form s))")
  case False
  then show ?thesis using show_more_click_expanded[OF assms(1,2)] by (simp add: handleFiltersClick_def)
next
  case True
  with assms(3) obtain p where p: "href_params = Some p" by auto
  let ?s1 = "applyFilters p True s"
  have "has_class ''js-show-more'' (node_at path (ff_form ?s1))" using assms(1) by simp
  moreover have "closest_id path ?s1 = Some g"
    using assms(2) by (simp add: closest_id_def closest_filter_applyFilters split: option.splits closest.splits)
  ultimately have "g \<in> set (ff_expanded (show_more_click path ?s1))" by (rule show_more_click_expanded)
  then show ?thesis using True p by (simp add: handleFiltersClick_def)
qed

lemma disclosure_with_the_id_is_no_ancestor:
  "facets_groups [Elem ''details-disclosure'' ''facets'' [] False [Elem ''details'' ''g'' [] False []]] = []
   \<and> facets_groups [Elem ''form'' ''facets'' [] False
                      [Elem ''details-disclosure'' [] [] False [Elem ''details'' ''g'' [] False []]]]
       = [Elem ''details'' ''g'' [] False []]
   \<and> restore_expanded [''g'']
        [Elem ''details-disclosure'' ''facets'' [] False
           [Elem ''details'' ''g'' [] False [Elem ''li'' [] [''js-hidden''] False []]]]
       = [Elem ''details-disclosure'' ''facets'' [] False
           [Elem ''details'' ''g'' [] False [Elem ''li'' [] [''js-hidden''] False []]]]"
  by code_simp

lemma show_more_click_outside_filter:
  "ff_expanded (ff_step
      (example_facets\<lparr>ff_form := [Elem ''button'' [] [''js-show-more''] False []],
                       ff_form_cls := [],
                       ff_form_outer := [\<lparr>oe_tag = ''div'', oe_id = ''sidebar'', oe_cls = [''filter''], oe_results = False\<rparr>],
                       ff_expanded := []\<rparr>)
      (FiltersClick [0] None))
   = [''sidebar'']
   \<and> closest_id [0] (example_facets\<lparr>ff_form := [Elem ''button'' [] [''js-show-more''] False []],
                                       ff_form_cls := [''filter'']\<rparr>)
       = Some ''facets''"
  by code_simp

text \<open>
  C4, as stated, fails: the \<open>open\<close> state is copied by id, so a filter group without an id
  that is open before a successful update is closed afterwards.
\<close>

theorem open_group_without_id_is_closed:
  "form_groups (ff_form anonymous_page)
     = [Elem ''details'' [] [''filter''] True [Elem ''li'' [] [] False [Text ''Red'']]]
   \<and> form_groups (ff_form (ff_run anonymous_page
        [ApplyFilters ''a=1'' True, FacetsFetchSettles 0 (Inr ok_response),
         FacetsTextSettles 0 (Inr anonymous_body)]))
     = [Elem ''details'' [] [''filter''] False [Elem ''li'' [] [] False [Text ''Red'']]]
   \<and> ff_dispatched (ff_run anonymous_page
        [ApplyFilters ''a=1'' True, FacetsFetchSettles 0 (Inr ok_response),
         FacetsTextSettles 0 (Inr anonymous_body)])
     = [''on:facet-filters:updated'']"
  by code_simp

text \<open>
  C4, amended. A successful update replaces the form, and of every filter group \<open>G'\<close> of the
  new form, a \<open>details\<close> element whose parent is a \<open>details-disclosure\<close> element, the
  following holds. If a group of the old form with the same id was open, the id being not
  empty and one that occurs once among the old groups and at most once in the response,
  then \<open>G'\<close> is open. If the id of \<open>G'\<close> is recorded in \<open>expanded\<close>, then no element inside
  \<open>G'\<close> has the class \<open>js-hidden\<close>, and \<open>G'\<close> has at least one \<open>filter__more\<close> element
  fewer than the group of that id in the response, if that had any. And a click on a
  show-more button whose handler is not ended by the \<open>URL\<close> constructor records the id of
  the closest \<open>.filter\<close> element in \<open>expanded\<close>, if there is such an element.
\<close>

theorem expanded_groups_survive:
  assumes "ff_find_request n AwaitText (ff_in_flight s) = Some r"
    and "applyFilters_render r body (ff_drop_request n s) = Inr s1"
    and "G' \<in> set (form_groups (ff_form (ff_step s (FacetsTextSettles n (Inr body)))))"
  shows "(\<forall>G \<in> set (form_groups (ff_form s)).
            nid G = nid G' \<and> nid G \<noteq> [] \<and> nopen G
            \<and> id_count (nid G) (form_groups (ff_form s)) \<le> 1
            \<and> id_count (nid G) (elements_of (fragment body)) \<le> 1 \<longrightarrow> nopen G')
       \<and> (nid G' \<in> set (ff_expanded s) \<longrightarrow>
            hidden_free (kids G')
            \<and> (\<exists>G0 \<in> set (facets_groups (fragment body)).
                  nid G0 = nid G' \<and> more_count (kids G') \<le> more_count (kids G0) - 1))
       \<and> (has_class ''js-show-more'' (node_at path (ff_form s2))
            \<and> (has_class ''js-clear-filter'' (node_at path (ff_form s2)) \<longrightarrow> href_params \<noteq> None)
            \<and> closest_id path s2 = Some g \<longrightarrow>
            g \<in> set (ff_expanded (ff_step s2 (FiltersClick path href_params))))"
proof -
  let ?d = "ff_drop_request n s"
  have step: "ff_step s (FacetsTextSettles n (Inr body)) = applyFilters_finally s1"
    using assms(1,2) by (simp add: applyFilters_text_def)
  then have G': "G' \<in> set (form_groups (ff_form s1))" using assms(3) by simp
  have d: "ff_form ?d = ff_form s" "ff_expanded ?d = ff_expanded s" by simp_all
  have 1: "nopen G'"
    if "G \<in> set (form_groups (ff_form s))" "nid G = nid G'" "nid G \<noteq> []" "nopen G"
      "id_count (nid G) (form_groups (ff_form s)) \<le> 1"
      "id_count (nid G) (elements_of (fragment body)) \<le> 1" for G
  proof -
    have a: "G \<in> set (form_groups (ff_form ?d))" unfolding d(1) by (rule that(1))
    have b: "id_count (nid G) (form_groups (ff_form ?d)) \<le> 1" unfolding d(1) by (rule that(5))
    show ?thesis
      by (rule open_survives[OF assms(2) a refl that(3) that(4) b that(6) G' that(2)[symmetric]])
  qed
  have x: "nid G' \<in> set (ff_expanded ?d)" if "nid G' \<in> set (ff_expanded s)"
    unfolding d(2) by (rule that)
  have 2: "hidden_free (kids G')" if "nid G' \<in> set (ff_expanded s)"
    by (rule hidden_items_shown[OF assms(2) G' x[OF that]])
  have 3: "\<exists>G0 \<in> set (facets_groups (fragment body)).
             nid G0 = nid G' \<and> more_count (kids G') \<le> more_count (kids G0) - 1"
    if "nid G' \<in> set (ff_expanded s)"
    by (rule show_more_removed[OF assms(2) G' x[OF that]])
  have 4: "g \<in> set (ff_expanded (ff_step s2 (FiltersClick path href_params)))"
    if "has_class ''js-show-more'' (node_at path (ff_form s2))"
      "has_class ''js-clear-filter'' (node_at path (ff_form s2)) \<longrightarrow> href_params \<noteq> None"
      "closest_id path s2 = Some g"
    using show_more_click_records[OF that(1) that(3) that(2)] by simp
  show ?thesis using 1 2 3 4 by blast
qed

theorem expanded_groups_survive_witness:
  "ff_find_request 0 AwaitText (ff_in_flight awaiting_body)
     = Some \<lparr>fr_id = 0, fr_searchParams = ''a=1'', fr_updateUrl = True,
             fr_url = ''/collections/x?a=1&section_id=main'', fr_phase = AwaitText\<rparr>
   \<and> Elem ''details'' ''filter-color'' [''filter''] True
         [Elem ''li'' [] [] False [Text ''Red''], Elem ''li'' [] [] False [Text ''Teal'']]
       \<in> set (form_groups (ff_form (ff_step awaiting_body (FacetsTextSettles 0 (Inr red_page)))))
   \<and> Elem ''details'' ''filter-color'' [''filter''] True [Elem ''li'' [] [] False [Text ''Red'']]
       \<in> set (form_groups (ff_form awaiting_body))
   \<and> id_count ''filter-color'' (form_groups (ff_form awaiting_body)) \<le> 1
   \<and> id_count ''filter-color'' (elements_of (fragment red_page)) \<le> 1
   \<and> ''filter-color'' \<in> set (ff_expanded awaiting_body)
   \<and> hidden_free [Elem ''li'' [] [] False [Text ''Red''], Elem ''li'' [] [] False [Text ''Teal'']]
   \<and> has_class ''js-show-more'' (node_at [0, 0, 2, 0] (ff_form collapsed_page))
   \<and> \<not> has_class ''js-clear-filter'' (node_at [0, 0, 2, 0] (ff_form collapsed_page))
   \<and> closest_id [0, 0, 2, 0] collapsed_page = Some ''filter-size''
   \<and> ''filter-size'' \<in> set (ff_expanded (ff_step collapsed_page (FiltersClick [0, 0, 2, 0] None)))"
proof -
  let ?r = "\<lparr>fr_id = 0, fr_searchParams = ''a=1'', fr_updateUrl = True,
             fr_url = ''/collections/x?a=1&section_id=main'', fr_phase = AwaitText\<rparr>"
  let ?G' = "Elem ''details'' ''filter-color'' [''filter''] True
         [Elem ''li'' [] [] False [Text ''Red''], Elem ''li'' [] [] False [Text ''Teal'']]"
  let ?G = "Elem ''details'' ''filter-color'' [''filter''] True [Elem ''li'' [] [] False [Text ''Red'']]"
  have h1: "ff_find_request 0 AwaitText (ff_in_flight awaiting_body) = Some ?r" by code_simp
  have h2: "applyFilters_render ?r red_page (ff_drop_request 0 awaiting_body)
              = Inr (projr (applyFilters_render ?r red_page (ff_drop_request 0 awaiting_body)))"
    by code_simp
  have h3: "?G' \<in> set (form_groups (ff_form (ff_step awaiting_body (FacetsTextSettles 0 (Inr red_page)))))"
    by code_simp
  have g: "?G \<in> set (form_groups (ff_form awaiting_body))" by code_simp
  have c1: "id_count ''filter-color'' (form_groups (ff_form awaiting_body)) \<le> 1" by code_simp
  have c2: "id_count ''filter-color'' (elements_of (fragment red_page)) \<le> 1" by code_simp
  have x: "''filter-color'' \<in> set (ff_expanded awaiting_body)" by code_simp
  have k1: "has_class ''js-show-more'' (node_at [0, 0, 2, 0] (ff_form collapsed_page))" by code_simp
  have k2: "\<not> has_class ''js-clear-filter'' (node_at [0, 0, 2, 0] (ff_form collapsed_page))" by code_simp
  have k3: "closest_id [0, 0, 2, 0] collapsed_page = Some ''filter-size''" by code_simp
  note th = expanded_groups_survive[OF h1 h2 h3, of "[0, 0, 2, 0]" collapsed_page None "''filter-size''"]
  have n: "nid ?G' = ''filter-color''" by simp
  from th have "nid ?G' \<in> set (ff_expanded awaiting_body) \<longrightarrow> hidden_free (kids ?G')" by blast
  with x have "hidden_free (kids ?G')" unfolding n by blast
  then have hf: "hidden_free [Elem ''li'' [] [] False [Text ''Red''], Elem ''li'' [] [] False [Text ''Teal'']]"
    by (simp only: node.sel)
  from th k1 k2 k3
  have rec: "''filter-size'' \<in> set (ff_expanded (ff_step collapsed_page (FiltersClick [0, 0, 2, 0] None)))"
    by blast
  show ?thesis by (intro conjI h1 h3 g c1 c2 x hf k1 k2 k3 rec)
qed

end
